theory Spec2Isabelle
  imports Main "HOL-Library.Word" "HOL-Library.Char_ord" "HOL-Library.List_Lexorder"
begin

section \<open>Values\<close>

text \<open>
  The store of \<^verbatim>\<open>src/core/index.ts\<close> keeps values of type
  \<^verbatim>\<open>KVValue = JSONValue | Uint8Array\<close>. A JavaScript number is a double. A finite
  one is an integer (\<open>Finite i\<close>) or has a fractional part (\<open>Fractional i k\<close>, the
  number \<open>i / 2 ^ k\<close> with \<open>i\<close> odd and \<open>k\<close> positive); the negative zero,
  \<^verbatim>\<open>NaN\<close> and the two infinities are values of their own. Which of these terms a double
  holds is said by \<open>is_number\<close>. The text form of a number and the parsing of a text
  are left to the platform, see \<open>platform\<close>.
\<close>

type_synonym byte = "8 word"

datatype jsnumber = Finite int | Fractional int nat | NegativeZero | NaN | PosInfinity | NegInfinity

datatype JSONValue =
    JNull
  | JBool bool
  | JNumber jsnumber
  | JString string
  | JArray "JSONValue list"
  | JObject "(string \<times> JSONValue) list"

text \<open>
  A \<^verbatim>\<open>Uint8Array\<close> is a view of \<open>byteLength\<close> bytes at \<open>byteOffset\<close> into an
  \<^verbatim>\<open>ArrayBuffer\<close>; the view lies inside its buffer (\<open>view_ok\<close>), and the bytes it
  shows are \<open>bytes_of\<close>.
\<close>

record Uint8Array =
  buffer :: "byte list"
  byteOffset :: nat
  byteLength :: nat

definition view_ok :: "Uint8Array \<Rightarrow> bool" where
  "view_ok arr = (byteOffset arr + byteLength arr \<le> length (buffer arr))"

definition bytes_of :: "Uint8Array \<Rightarrow> byte list" where
  "bytes_of arr = take (byteLength arr) (drop (byteOffset arr) (buffer arr))"

datatype KVValue = Json JSONValue | Binary Uint8Array

text \<open>
  \<open>decodeValue\<close> is typed \<^verbatim>\<open>any \<Rightarrow> KVValue\<close>, and hands back \<^verbatim>\<open>row.value_text\<close>
  as it is on its last line, which is \<^verbatim>\<open>undefined\<close> for a row without that field.
\<close>

datatype jsvalue = Undefined | Value KVValue

record KVEntry =
  entry_key :: string
  entry_value :: jsvalue
  entry_version :: string

datatype error =
    Error string
  | SyntaxError
  | LibsqlError string

text \<open>
  What the code takes from the JavaScript runtime and cannot be read from the
  repository: \<^verbatim>\<open>String(n)\<close> of a finite number other than \<open>-0\<close>, \<^verbatim>\<open>Number(s)\<close> of a string,
  \<^verbatim>\<open>JSON.stringify\<close> and \<^verbatim>\<open>JSON.parse\<close>. They are parameters of the codec.
\<close>

record platform =
  Number_toString :: "jsnumber \<Rightarrow> string"
  StringToNumber :: "string \<Rightarrow> jsnumber"
  JSON_stringify :: "JSONValue \<Rightarrow> string"
  JSON_parse :: "string \<Rightarrow> error + JSONValue"

section \<open>Rows\<close>

text \<open>
  A row as the driver returns it. The three columns the codec reads can be missing
  from the row object (\<^verbatim>\<open>"value_type" in row\<close> is tested), be \<^verbatim>\<open>null\<close>, or hold a
  value. \<open>expires_at\<close> is \<^verbatim>\<open>null\<close> or a number of milliseconds. The column
  \<^verbatim>\<open>created_at\<close> is never read by the code and is left out.
\<close>

datatype 'a column = Absent | Null | Val 'a

record row =
  key :: string
  value_blob :: "byte list column"
  value_text :: "string column"
  value_type :: "string column"
  version :: string
  expires_at :: "int option"

section \<open>The value codec\<close>

text \<open>\<^verbatim>\<open>{ blob, text, type }\<close>, the result of \<open>encodeValue\<close>.\<close>

record encoded =
  enc_blob :: "byte list option"
  enc_text :: "string option"
  enc_type :: string

text \<open>\<^verbatim>\<open>ArrayBuffer.prototype.slice(begin, end)\<close> for non-negative arguments.\<close>

definition ArrayBuffer_slice :: "byte list \<Rightarrow> nat \<Rightarrow> nat \<Rightarrow> byte list" where
  "ArrayBuffer_slice buf b e =
     (let first = min b (length buf); final = min e (length buf)
      in take (final - first) (drop first buf))"

definition toArrayBuffer :: "Uint8Array \<Rightarrow> byte list" where
  "toArrayBuffer arr =
     (if byteLength arr = length (buffer arr) \<and> byteOffset arr = 0 then buffer arr
      else ArrayBuffer_slice (buffer arr) (byteOffset arr) (byteOffset arr + byteLength arr))"

text \<open>\<^verbatim>\<open>String(value)\<close> for a number and for a boolean.\<close>

fun String_number :: "platform \<Rightarrow> jsnumber \<Rightarrow> string" where
  "String_number P NaN = ''NaN''"
| "String_number P PosInfinity = ''Infinity''"
| "String_number P NegInfinity = ''-Infinity''"
| "String_number P NegativeZero = ''0''"
| "String_number P n = Number_toString P n"

definition String_boolean :: "bool \<Rightarrow> string" where
  "String_boolean b = (if b then ''true'' else ''false'')"

fun encodeValue :: "platform \<Rightarrow> KVValue \<Rightarrow> encoded" where
  "encodeValue P (Binary arr) =
     \<lparr>enc_blob = Some (toArrayBuffer arr), enc_text = None, enc_type = ''binary''\<rparr>"
| "encodeValue P (Json (JString s)) =
     \<lparr>enc_blob = None, enc_text = Some s, enc_type = ''string''\<rparr>"
| "encodeValue P (Json (JNumber n)) =
     \<lparr>enc_blob = None, enc_text = Some (String_number P n), enc_type = ''number''\<rparr>"
| "encodeValue P (Json (JBool b)) =
     \<lparr>enc_blob = None, enc_text = Some (String_boolean b), enc_type = ''boolean''\<rparr>"
| "encodeValue P (Json j) =
     \<lparr>enc_blob = None, enc_text = Some (JSON_stringify P j), enc_type = ''json''\<rparr>"

text \<open>
  The conversions \<open>decodeValue\<close> applies to a column that may be \<^verbatim>\<open>null\<close> or
  missing: \<^verbatim>\<open>new Uint8Array(null)\<close> and \<^verbatim>\<open>new Uint8Array(undefined)\<close> are empty,
  \<^verbatim>\<open>Number(null)\<close> is 0 and \<^verbatim>\<open>Number(undefined)\<close> is NaN, and \<^verbatim>\<open>JSON.parse\<close>
  first turns its argument into the string \<^verbatim>\<open>"null"\<close> or \<^verbatim>\<open>"undefined"\<close>.
\<close>

fun new_Uint8Array :: "byte list column \<Rightarrow> Uint8Array" where
  "new_Uint8Array (Val bs) = \<lparr>buffer = bs, byteOffset = 0, byteLength = length bs\<rparr>"
| "new_Uint8Array Null = \<lparr>buffer = [], byteOffset = 0, byteLength = 0\<rparr>"
| "new_Uint8Array Absent = \<lparr>buffer = [], byteOffset = 0, byteLength = 0\<rparr>"

fun Number_of :: "platform \<Rightarrow> string column \<Rightarrow> jsnumber" where
  "Number_of P (Val s) = StringToNumber P s"
| "Number_of P Null = Finite 0"
| "Number_of P Absent = NaN"

fun JSON_parse_of :: "platform \<Rightarrow> string column \<Rightarrow> error + JSONValue" where
  "JSON_parse_of P (Val s) = JSON_parse P s"
| "JSON_parse_of P Null = JSON_parse P ''null''"
| "JSON_parse_of P Absent = JSON_parse P ''undefined''"

fun as_is :: "string column \<Rightarrow> jsvalue" where
  "as_is (Val s) = Value (Json (JString s))"
| "as_is Null = Value (Json JNull)"
| "as_is Absent = Undefined"

definition decodeValue :: "platform \<Rightarrow> row \<Rightarrow> error + jsvalue" where
  "decodeValue P r =
     (if value_type r = Absent \<and> value_blob r = Absent \<and> value_text r = Absent
      then Inl (Error ''Invalid row format for decoding value.'')
      else if value_type r = Val ''binary''
      then Inr (Value (Binary (new_Uint8Array (value_blob r))))
      else if value_type r = Val ''number''
      then Inr (Value (Json (JNumber (Number_of P (value_text r)))))
      else if value_type r = Val ''boolean''
      then Inr (Value (Json (JBool (value_text r = Val ''true''))))
      else if value_type r = Val ''json''
      then (case JSON_parse_of P (value_text r) of
              Inl e \<Rightarrow> Inl e
            | Inr j \<Rightarrow> Inr (Value (Json j)))
      else Inr (as_is (value_text r)))"

section \<open>Statements\<close>

text \<open>
  Every operation hands one SQL text and a list of positional arguments
  (\<^verbatim>\<open>InValue[]\<close>) to the abstract method \<^verbatim>\<open>execute(sql, args)\<close>. The executor is a
  parameter of the operations: it takes the session state and returns the rows, or the
  error it raised, with the new state.
\<close>

datatype InValue = INull | INumber jsnumber | IString string | IBuffer "byte list"

type_synonym 's executor = "string \<Rightarrow> InValue list \<Rightarrow> 's \<Rightarrow> (error + row list) \<times> 's"

definition tableName :: string where
  "tableName = ''kv_store''"

text \<open>\<^verbatim>\<open>Array.prototype.join\<close> on strings.\<close>

fun join :: "string \<Rightarrow> string list \<Rightarrow> string" where
  "join sep [] = []"
| "join sep [x] = x"
| "join sep (x # y # ys) = x @ sep @ join sep (y # ys)"

definition get_sql :: string where
  "get_sql = ''SELECT * FROM '' @ tableName @ '' WHERE key = ?''"

text \<open>\<^verbatim>\<open>keys.map(() => "?").join(",")\<close>\<close>

definition placeholders :: "'a list \<Rightarrow> string" where
  "placeholders keys = join '','' (map (\<lambda>_. ''?'') keys)"

definition getMany_sql :: "'a list \<Rightarrow> string" where
  "getMany_sql keys = ''SELECT * FROM '' @ tableName @ '' WHERE key IN ('' @ placeholders keys @ '')''"

definition set_sql :: string where
  "set_sql =
     ''INSERT INTO '' @ tableName @ '' (key, value_blob, value_text, value_type, version, expires_at)'' @ [CHR 0x0A] @
     ''VALUES (?, ?, ?, ?, ?, ?)'' @ [CHR 0x0A] @
     ''ON CONFLICT(key) DO UPDATE SET'' @ [CHR 0x0A] @
     ''  value_blob = excluded.value_blob,'' @ [CHR 0x0A] @
     ''  value_text = excluded.value_text,'' @ [CHR 0x0A] @
     ''  value_type = excluded.value_type,'' @ [CHR 0x0A] @
     ''  version = excluded.version,'' @ [CHR 0x0A] @
     ''  expires_at = excluded.expires_at'' @ [CHR 0x0A]"

definition del_sql :: string where
  "del_sql = ''DELETE FROM '' @ tableName @ '' WHERE key = ?''"

definition cleanupExpired_sql :: string where
  "cleanupExpired_sql =
     ''DELETE FROM '' @ tableName @ '' WHERE expires_at IS NOT NULL AND expires_at < ?''"

section \<open>The predicate compiler\<close>

text \<open>
  A condition's operator is typed \<^verbatim>\<open>WhereOperator\<close>, yet the code checks it again at
  run time, so it is a string here. Its value is a string or a number and goes to the
  arguments as it is. A \<^verbatim>\<open>LogicResult\<close> is what the callback of \<^verbatim>\<open>where\<close> returns.
\<close>

record WhereCondition =
  cond_field :: string
  cond_operator :: string
  cond_value :: InValue

datatype LogicOp = Op_AND | Op_OR | Op_NOT

datatype Filter = Condition WhereCondition | LogicResult LogicOp "Filter list"

fun op_text :: "LogicOp \<Rightarrow> string" where
  "op_text Op_AND = ''AND''"
| "op_text Op_OR = ''OR''"
| "op_text Op_NOT = ''NOT''"

definition safeOps :: "string list" where
  "safeOps = [''='', ''>'', ''<'', ''LIKE'', ''!='']"

fun buildWhereSql :: "Filter \<Rightarrow> error + (string \<times> InValue list)"
  and buildWhereSql_each :: "Filter list \<Rightarrow> error + (string list \<times> InValue list)" where
  "buildWhereSql (LogicResult Op_NOT []) = Inl (Error ''NOT operator requires a condition'')"
| "buildWhereSql (LogicResult Op_NOT (first # rest)) =
     (case buildWhereSql first of
        Inl e \<Rightarrow> Inl e
      | Inr (inner_sql, inner_args) \<Rightarrow> Inr (''NOT ('' @ inner_sql @ '')'', inner_args))"
| "buildWhereSql (LogicResult lop conditions) =
     (case buildWhereSql_each conditions of
        Inl e \<Rightarrow> Inl e
      | Inr (parts, args) \<Rightarrow> Inr (''('' @ join ('' '' @ op_text lop @ '' '') parts @ '')'', args))"
| "buildWhereSql (Condition condition) =
     (let operator = (if cond_operator condition \<in> set safeOps then cond_operator condition else ''='')
      in Inr (''json_extract(value_text, ?) '' @ operator @ '' ?'',
              [IString (''$.'' @ cond_field condition), cond_value condition]))"
| "buildWhereSql_each [] = Inr ([], [])"
| "buildWhereSql_each (cond # conds) =
     (case buildWhereSql cond of
        Inl e \<Rightarrow> Inl e
      | Inr (res_sql, res_args) \<Rightarrow>
          (case buildWhereSql_each conds of
             Inl e \<Rightarrow> Inl e
           | Inr (parts, args) \<Rightarrow> Inr (res_sql # parts, res_args @ args)))"

section \<open>The entry store\<close>

text \<open>
  The operations of the class \<^verbatim>\<open>CoreKV\<close>, which \<^verbatim>\<open>LibSQLKV\<close> inherits as they
  are. \<^verbatim>\<open>KVTransaction\<close> overrides \<open>get\<close> and \<open>getMany\<close> only to await the delete
  of an expired row; its overrides, and the handling of connections and transactions
  (\<^verbatim>\<open>init\<close>, \<^verbatim>\<open>transaction\<close>, \<^verbatim>\<open>commit\<close>, \<^verbatim>\<open>rollback\<close>, \<^verbatim>\<open>close\<close>,
  \<^verbatim>\<open>sync\<close>), are not modelled. The calls of one session run one after the other.
\<close>

record SetOptions =
  expireIn :: "int option"

datatype where_option = Where_condition WhereCondition | Where_callback Filter

text \<open>\<open>reverse\<close>: an absent flag is \<open>False\<close>. \<open>cursor\<close> is declared and never read.\<close>

record ListOptions =
  prefix :: "string option"
  limit :: "int option"
  cursor :: "string option"
  where_clause :: "where_option option"
  reverse :: bool

text \<open>
  \<^verbatim>\<open>row.expires_at && row.expires_at < now\<close>: \<^verbatim>\<open>null\<close> and 0 are falsy.
\<close>

definition expired :: "row \<Rightarrow> int \<Rightarrow> bool" where
  "expired r now = (case expires_at r of None \<Rightarrow> False | Some e \<Rightarrow> e \<noteq> 0 \<and> e < now)"

text \<open>The entry built from a row; a decode error is thrown on.\<close>

definition entry_of :: "platform \<Rightarrow> row \<Rightarrow> error + KVEntry" where
  "entry_of P r =
     (case decodeValue P r of
        Inl e \<Rightarrow> Inl e
      | Inr v \<Rightarrow> Inr \<lparr>entry_key = key r, entry_value = v, entry_version = version r\<rparr>)"

text \<open>\<^verbatim>\<open>xs.map(f)\<close> where \<open>f\<close> may throw: the first error, in the order of the list.\<close>

fun map_throwing :: "('a \<Rightarrow> error + 'b) \<Rightarrow> 'a list \<Rightarrow> error + 'b list" where
  "map_throwing f [] = Inr []"
| "map_throwing f (x # xs) =
     (case f x of
        Inl e \<Rightarrow> Inl e
      | Inr y \<Rightarrow> (case map_throwing f xs of Inl e \<Rightarrow> Inl e | Inr ys \<Rightarrow> Inr (y # ys)))"

definition del :: "'s executor \<Rightarrow> string \<Rightarrow> 's \<Rightarrow> (error + unit) \<times> 's" where
  "del execute k s =
     (case execute del_sql [IString k] s of
        (Inl e, s1) \<Rightarrow> (Inl e, s1)
      | (Inr rows, s1) \<Rightarrow> (Inr (), s1))"

text \<open>
  \<^verbatim>\<open>this.del(key).catch(() => {})\<close>: the delete is issued, its outcome is dropped.
  \<open>now\<close> is the one reading of \<^verbatim>\<open>Date.now()\<close> of a call.
\<close>

definition get :: "'s executor \<Rightarrow> platform \<Rightarrow> int \<Rightarrow> string \<Rightarrow> 's \<Rightarrow> (error + KVEntry option) \<times> 's" where
  "get execute P now k s =
     (case execute get_sql [IString k] s of
        (Inl e, s1) \<Rightarrow> (Inl e, s1)
      | (Inr [], s1) \<Rightarrow> (Inr None, s1)
      | (Inr (r # rest), s1) \<Rightarrow>
          if expired r now then (Inr None, snd (del execute k s1))
          else (case entry_of P r of Inl e \<Rightarrow> (Inl e, s1) | Inr entry \<Rightarrow> (Inr (Some entry), s1)))"

text \<open>The loop of \<open>getMany\<close> over the rows, filling the \<^verbatim>\<open>Map\<close>.\<close>

fun getMany_rows :: "'s executor \<Rightarrow> int \<Rightarrow> row list \<Rightarrow> (string \<rightharpoonup> row) \<Rightarrow> 's \<Rightarrow> (string \<rightharpoonup> row) \<times> 's" where
  "getMany_rows execute now [] m s = (m, s)"
| "getMany_rows execute now (r # rows) m s =
     (if expired r now then getMany_rows execute now rows m (snd (del execute (key r) s))
      else getMany_rows execute now rows (m(key r \<mapsto> r)) s)"

definition getMany_slot :: "platform \<Rightarrow> (string \<rightharpoonup> row) \<Rightarrow> string \<Rightarrow> error + KVEntry option" where
  "getMany_slot P m k =
     (case m k of
        None \<Rightarrow> Inr None
      | Some r \<Rightarrow> (case entry_of P r of Inl e \<Rightarrow> Inl e | Inr entry \<Rightarrow> Inr (Some entry)))"

definition getMany :: "'s executor \<Rightarrow> platform \<Rightarrow> int \<Rightarrow> string list \<Rightarrow> 's \<Rightarrow> (error + KVEntry option list) \<times> 's" where
  "getMany execute P now keys s =
     (if keys = [] then (Inr [], s)
      else (case execute (getMany_sql keys) (map IString keys) s of
              (Inl e, s1) \<Rightarrow> (Inl e, s1)
            | (Inr rows, s1) \<Rightarrow>
                (case getMany_rows execute now rows Map.empty s1 of
                   (m, s2) \<Rightarrow> (map_throwing (getMany_slot P m) keys, s2))))"

text \<open>
  \<open>set\<close> of the source. \<open>ver\<close> is what \<^verbatim>\<open>generateVersion()\<close> returned for this
  call (a random string of the package \<^verbatim>\<open>unsecure\<close>).
\<close>

definition expiresAt :: "int \<Rightarrow> SetOptions \<Rightarrow> int option" where
  "expiresAt now options =
     (case expireIn options of
        None \<Rightarrow> None
      | Some d \<Rightarrow> if d \<noteq> 0 then Some (now + d) else None)"

definition set_args :: "string \<Rightarrow> encoded \<Rightarrow> string \<Rightarrow> int option \<Rightarrow> InValue list" where
  "set_args k enc ver ex =
     [IString k,
      (case enc_blob enc of None \<Rightarrow> INull | Some b \<Rightarrow> IBuffer b),
      (case enc_text enc of None \<Rightarrow> INull | Some t \<Rightarrow> IString t),
      IString (enc_type enc),
      IString ver,
      (case ex of None \<Rightarrow> INull | Some e \<Rightarrow> INumber (Finite e))]"

definition set_kv :: "'s executor \<Rightarrow> platform \<Rightarrow> int \<Rightarrow> string \<Rightarrow> string \<Rightarrow> KVValue \<Rightarrow> SetOptions \<Rightarrow> 's \<Rightarrow> (error + unit) \<times> 's" where
  "set_kv execute P now ver k v options s =
     (case execute set_sql (set_args k (encodeValue P v) ver (expiresAt now options)) s of
        (Inl e, s1) \<Rightarrow> (Inl e, s1)
      | (Inr rows, s1) \<Rightarrow> (Inr (), s1))"

definition cleanupExpired :: "'s executor \<Rightarrow> int \<Rightarrow> 's \<Rightarrow> (error + unit) \<times> 's" where
  "cleanupExpired execute now s =
     (case execute cleanupExpired_sql [INumber (Finite now)] s of
        (Inl e, s1) \<Rightarrow> (Inl e, s1)
      | (Inr rows, s1) \<Rightarrow> (Inr (), s1))"

text \<open>Step 3 of \<open>list\<close>: what the \<^verbatim>\<open>where\<close> option adds to the text and the arguments.\<close>

fun list_where :: "where_option option \<Rightarrow> error + (string \<times> InValue list)" where
  "list_where None = Inr ([], [])"
| "list_where (Some (Where_callback logicTree)) =
     (case buildWhereSql logicTree of
        Inl e \<Rightarrow> Inl e
      | Inr (whereSql, whereArgs) \<Rightarrow>
          Inr ('' AND value_type = 'json' AND ('' @ whereSql @ '')'', whereArgs))"
| "list_where (Some (Where_condition c)) =
     (let operator = (if cond_operator c \<in> set safeOps then cond_operator c else ''='')
      in Inr ('' AND value_type = 'json' AND json_extract(value_text, ?) '' @ operator @ '' ?'',
              [IString (''$.'' @ cond_field c), cond_value c]))"

definition list_statement :: "int \<Rightarrow> ListOptions \<Rightarrow> error + (string \<times> InValue list)" where
  "list_statement now options =
     (let sql = ''SELECT * FROM '' @ tableName @ '' WHERE 1=1'';
          args = [];
          sql = sql @ '' AND (expires_at IS NULL OR expires_at > ?)'';
          args = args @ [INumber (Finite now)];
          (sql, args) =
            (case prefix options of
               None \<Rightarrow> (sql, args)
             | Some p \<Rightarrow> if p \<noteq> [] then (sql @ '' AND key LIKE ?'', args @ [IString (p @ ''%'')])
                         else (sql, args))
      in case list_where (where_clause options) of
           Inl e \<Rightarrow> Inl e
         | Inr (where_sql, where_args) \<Rightarrow>
             (let sql = sql @ where_sql;
                  args = args @ where_args;
                  sql = sql @ '' ORDER BY key '' @ (if reverse options then ''DESC'' else ''ASC'');
                  (sql, args) =
                    (case limit options of
                       None \<Rightarrow> (sql, args)
                     | Some n \<Rightarrow> if n \<noteq> 0 then (sql @ '' LIMIT ?'', args @ [INumber (Finite n)])
                                 else (sql, args))
              in Inr (sql, args)))"

definition list_kv :: "'s executor \<Rightarrow> platform \<Rightarrow> int \<Rightarrow> ListOptions \<Rightarrow> 's \<Rightarrow> (error + KVEntry list) \<times> 's" where
  "list_kv execute P now options s =
     (case list_statement now options of
        Inl e \<Rightarrow> (Inl e, s)
      | Inr (sql, args) \<Rightarrow>
          (case execute sql args s of
             (Inl e, s1) \<Rightarrow> (Inl e, s1)
           | (Inr rows, s1) \<Rightarrow> (map_throwing (entry_of P) rows, s1)))"

section \<open>A model of the SQL engine\<close>

text \<open>
  The engine (libSQL, a fork of SQLite) is outside the repository. This model answers
  the statements the store issues, on the table \<^verbatim>\<open>kv_store\<close> kept as a list of
  rows: it recognises each statement by its text and reads the positional arguments.
  Arguments of a type the store never sends, and any other text, are reported as an
  error. The schema is the one \<^verbatim>\<open>init\<close> creates (\<open>checked_types\<close> is its
  \<^verbatim>\<open>CHECK\<close> constraint); the upsert overwrites every column of this model.
  The comparison of \<^verbatim>\<open>json_extract(value_text, ?)\<close> with an argument belongs to the
  engine's JSON functions; \<open>json1\<close>, when present, says whether a row satisfies such a
  fragment, and an engine built without them reports an error.
\<close>

type_synonym json1 = "string \<Rightarrow> InValue list \<Rightarrow> row \<Rightarrow> bool"

definition checked_types :: "string list" where
  "checked_types = [''json'', ''string'', ''number'', ''binary'', ''boolean'']"

fun blob_column :: "InValue \<Rightarrow> byte list column option" where
  "blob_column INull = Some Null"
| "blob_column (IBuffer b) = Some (Val b)"
| "blob_column _ = None"

fun text_column :: "InValue \<Rightarrow> string column option" where
  "text_column INull = Some Null"
| "text_column (IString t) = Some (Val t)"
| "text_column _ = None"

fun integer_column :: "InValue \<Rightarrow> int option option" where
  "integer_column INull = Some None"
| "integer_column (INumber (Finite e)) = Some (Some e)"
| "integer_column _ = None"

fun upsert_row :: "InValue list \<Rightarrow> row option" where
  "upsert_row [IString k, b, t, IString ty, IString ver, e] =
     (case (blob_column b, text_column t, integer_column e) of
        (Some bc, Some tc, Some ec) \<Rightarrow>
          Some \<lparr>key = k, value_blob = bc, value_text = tc, value_type = Val ty,
                version = ver, expires_at = ec\<rparr>
      | _ \<Rightarrow> None)"
| "upsert_row _ = None"

text \<open>\<^verbatim>\<open>INSERT ... ON CONFLICT(key) DO UPDATE SET ...\<close>\<close>

definition upsert :: "row \<Rightarrow> row list \<Rightarrow> row list" where
  "upsert new t =
     (if key new \<in> key ` set t then map (\<lambda>r. if key r = key new then new else r) t
      else t @ [new])"

text \<open>
  SQLite's \<^verbatim>\<open>LIKE\<close>: \<^verbatim>\<open>%\<close> in the pattern matches any run of characters, \<^verbatim>\<open>_\<close>
  any one character, and a letter of ASCII matches in either case.
\<close>

definition same_letter :: "char \<Rightarrow> char \<Rightarrow> bool" where
  "same_letter a b =
     (a = b
      \<or> (CHR ''A'' \<le> a \<and> a \<le> CHR ''Z'' \<and> (of_char b :: nat) = of_char a + 32)
      \<or> (CHR ''A'' \<le> b \<and> b \<le> CHR ''Z'' \<and> (of_char a :: nat) = of_char b + 32))"

fun like :: "string \<Rightarrow> string \<Rightarrow> bool" where
  "like [] [] = True"
| "like [] (c # cs) = False"
| "like (p # ps) [] = (p = CHR ''%'' \<and> like ps [])"
| "like (p # ps) (c # cs) =
     (if p = CHR ''%'' then like ps (c # cs) \<or> like (p # ps) cs
      else (p = CHR ''_'' \<or> same_letter p c) \<and> like ps cs)"

definition strip_prefix :: "string \<Rightarrow> string \<Rightarrow> string option" where
  "strip_prefix p s = (if take (length p) s = p then Some (drop (length p) s) else None)"

definition strip_suffix :: "string \<Rightarrow> string \<Rightarrow> string option" where
  "strip_suffix p s =
     (if length p \<le> length s \<and> drop (length s - length p) s = p
      then Some (take (length s - length p) s) else None)"

text \<open>The shape of a \<open>list\<close> statement, read back from its text.\<close>

record list_shape =
  by_prefix :: bool
  json_filter :: "string option"
  descending :: bool
  limited :: bool

definition list_head :: string where
  "list_head = ''SELECT * FROM '' @ tableName @ '' WHERE 1=1 AND (expires_at IS NULL OR expires_at > ?)''"

definition parse_list_middle :: "bool \<Rightarrow> bool \<Rightarrow> string \<Rightarrow> list_shape option" where
  "parse_list_middle desc lim s =
     (case (case strip_prefix '' AND key LIKE ?'' s of None \<Rightarrow> (False, s) | Some r \<Rightarrow> (True, r)) of
        (pre, r) \<Rightarrow>
          if r = [] then Some \<lparr>by_prefix = pre, json_filter = None, descending = desc, limited = lim\<rparr>
          else (case strip_prefix '' AND value_type = 'json' AND '' r of
                  None \<Rightarrow> None
                | Some w \<Rightarrow> Some \<lparr>by_prefix = pre, json_filter = Some w, descending = desc, limited = lim\<rparr>))"

definition parse_list :: "string \<Rightarrow> list_shape option" where
  "parse_list sql =
     (case strip_prefix list_head sql of
        None \<Rightarrow> None
      | Some r0 \<Rightarrow>
          (case (case strip_suffix '' LIMIT ?'' r0 of None \<Rightarrow> (False, r0) | Some r \<Rightarrow> (True, r)) of
             (lim, r1) \<Rightarrow>
               (case strip_suffix '' ORDER BY key ASC'' r1 of
                  Some r \<Rightarrow> parse_list_middle False lim r
                | None \<Rightarrow>
                    (case strip_suffix '' ORDER BY key DESC'' r1 of
                       Some r \<Rightarrow> parse_list_middle True lim r
                     | None \<Rightarrow> None))))"

definition live :: "int \<Rightarrow> row \<Rightarrow> bool" where
  "live now r = (case expires_at r of None \<Rightarrow> True | Some e \<Rightarrow> e > now)"

definition order_limit :: "bool \<Rightarrow> int option \<Rightarrow> row list \<Rightarrow> row list" where
  "order_limit desc lim rows =
     (let sorted_rows = sort_key key rows;
          ordered = (if desc then rev sorted_rows else sorted_rows)
      in case lim of
           None \<Rightarrow> ordered
         | Some n \<Rightarrow> if n < 0 then ordered else take (nat n) ordered)"

definition bad_arguments :: error where
  "bad_arguments = LibsqlError ''arguments do not fit the statement''"

definition select_list :: "json1 option \<Rightarrow> list_shape \<Rightarrow> InValue list \<Rightarrow> row list \<Rightarrow> error + row list" where
  "select_list J sh args t =
     (case args of
        INumber (Finite now) # rest \<Rightarrow>
          (case (if by_prefix sh
                 then (case rest of IString pat # r \<Rightarrow> Some (Some pat, r) | _ \<Rightarrow> None)
                 else Some (None, rest)) of
             None \<Rightarrow> Inl bad_arguments
           | Some (pat, rest1) \<Rightarrow>
               (case (if limited sh
                      then (case rev rest1 of INumber (Finite n) # r \<Rightarrow> Some (Some n, rev r) | _ \<Rightarrow> None)
                      else Some (None, rest1)) of
                  None \<Rightarrow> Inl bad_arguments
                | Some (lim, where_args) \<Rightarrow>
                    (let selected = (\<lambda>r. live now r \<and> (case pat of None \<Rightarrow> True | Some p \<Rightarrow> like p (key r)))
                     in case json_filter sh of
                          None \<Rightarrow>
                            if where_args = [] then Inr (order_limit (descending sh) lim (filter selected t))
                            else Inl bad_arguments
                        | Some w \<Rightarrow>
                            (case J of
                               None \<Rightarrow> Inl (LibsqlError ''no such function: json_extract'')
                             | Some holds \<Rightarrow>
                                 Inr (order_limit (descending sh) lim
                                       (filter (\<lambda>r. selected r \<and> value_type r = Val ''json'' \<and> holds w where_args r) t))))))
      | _ \<Rightarrow> Inl bad_arguments)"

fun text_argument :: "InValue \<Rightarrow> string option" where
  "text_argument (IString k) = Some k"
| "text_argument _ = None"

fun text_arguments :: "InValue list \<Rightarrow> string list option" where
  "text_arguments [] = Some []"
| "text_arguments (a # as) =
     (case text_argument a of
        None \<Rightarrow> None
      | Some k \<Rightarrow> (case text_arguments as of None \<Rightarrow> None | Some ks \<Rightarrow> Some (k # ks)))"

definition sqlite :: "json1 option \<Rightarrow> row list executor" where
  "sqlite J sql args t =
     (if sql = get_sql then
        (case args of
           [IString k] \<Rightarrow> (Inr (filter (\<lambda>r. key r = k) t), t)
         | _ \<Rightarrow> (Inl bad_arguments, t))
      else if sql = del_sql then
        (case args of
           [IString k] \<Rightarrow> (Inr [], filter (\<lambda>r. key r \<noteq> k) t)
         | _ \<Rightarrow> (Inl bad_arguments, t))
      else if sql = cleanupExpired_sql then
        (case args of
           [INumber (Finite now)] \<Rightarrow>
             (Inr [], filter (\<lambda>r. \<not> (case expires_at r of None \<Rightarrow> False | Some e \<Rightarrow> e < now)) t)
         | _ \<Rightarrow> (Inl bad_arguments, t))
      else if sql = set_sql then
        (case upsert_row args of
           None \<Rightarrow> (Inl bad_arguments, t)
         | Some new \<Rightarrow>
             if value_type new \<in> Val ` set checked_types then (Inr [], upsert new t)
             else (Inl (LibsqlError ''CHECK constraint failed''), t))
      else if args \<noteq> [] \<and> sql = getMany_sql args then
        (case text_arguments args of
           None \<Rightarrow> (Inl bad_arguments, t)
         | Some ks \<Rightarrow> (Inr (filter (\<lambda>r. key r \<in> set ks) t), t))
      else
        (case parse_list sql of
           None \<Rightarrow> (Inl (LibsqlError ''unknown statement''), t)
         | Some sh \<Rightarrow>
             (case select_list J sh args t of
                Inl e \<Rightarrow> (Inl e, t)
              | Inr rows \<Rightarrow> (Inr rows, t))))"

section \<open>A reference platform\<close>

text \<open>
  The four functions as ECMAScript defines them, to run the model on.
  \<^verbatim>\<open>Number::toString\<close> writes the fewest digits that read back to the number, the
  closest such digits when there is a choice, and \<^verbatim>\<open>StringToNumber\<close> rounds the
  value of a literal to the nearest double, to the even one of two equally near (the
  standard lets an implementation drop the digits after the twentieth before it rounds;
  the model rounds the exact value). \<^verbatim>\<open>JSON.stringify\<close> is the one with no replacer
  and no indentation, \<^verbatim>\<open>JSON.parse\<close> the one with no reviver. A string of the model
  is a list of 8-bit characters: the code units of JavaScript above 255 have no
  counterpart in it.
\<close>

subsection \<open>Digits\<close>

definition digit_char :: "nat \<Rightarrow> char" where
  "digit_char n = ''0123456789abcdef'' ! (n mod 16)"

fun decimal :: "nat \<Rightarrow> string" where
  "decimal n = (if n < 10 then [digit_char n] else decimal (n div 10) @ [digit_char (n mod 10)])"

declare decimal.simps [simp del]

definition is_digit :: "char \<Rightarrow> bool" where
  "is_digit c = (CHR ''0'' \<le> c \<and> c \<le> CHR ''9'')"

text \<open>The number a string of decimal digits stands for.\<close>

fun digits_value :: "string \<Rightarrow> nat \<Rightarrow> nat" where
  "digits_value [] acc = acc"
| "digits_value (c # cs) acc = digits_value cs (10 * acc + (of_char c - 48))"

subsection \<open>Rounding to a double\<close>

text \<open>
  A decimal is a pair \<open>(s, x)\<close> that stands for \<open>s * 10 ^ x\<close>; it is kept with no
  zero at the end of \<open>s\<close>.
\<close>

function strip_zeros :: "nat \<Rightarrow> int \<Rightarrow> nat \<times> int" where
  "strip_zeros s x = (if s \<noteq> 0 \<and> s mod 10 = 0 then strip_zeros (s div 10) (x + 1) else (s, x))"
  by pat_completeness auto
termination
  by (relation "measure fst") auto

declare strip_zeros.simps [simp del]

text \<open>
  \<open>floor_log2 p q\<close> is the \<open>e\<close> with \<open>2 ^ e \<le> p / q < 2 ^ (e + 1)\<close>, for positive
  \<open>p\<close> and \<open>q\<close>: the lengths of the two numbers in binary give it up to one.
\<close>

function bit_length :: "nat \<Rightarrow> nat" where
  "bit_length n = (if n = 0 then 0 else Suc (bit_length (n div 2)))"
  by pat_completeness auto
termination
  by (relation "measure id") auto

declare bit_length.simps [simp del]

definition floor_log2 :: "nat \<Rightarrow> nat \<Rightarrow> int" where
  "floor_log2 p q =
     (let d = int (bit_length p) - int (bit_length q)
      in if (if 0 \<le> d then 2 ^ nat d * q \<le> p else q \<le> 2 ^ nat (- d) * p) then d else d - 1)"

text \<open>
  \<open>p / q\<close> rounded to the nearest integer, to the even one of two equally near.
\<close>

definition nearest_even :: "nat \<Rightarrow> nat \<Rightarrow> nat" where
  "nearest_even p q =
     (let f = p div q; r = p mod q
      in if 2 * r < q then f else if q < 2 * r then f + 1 else if even f then f else f + 1)"

text \<open>
  The double \<open>m * 2 ^ e\<close>: an integer, or \<open>m / 2 ^ k\<close> in lowest terms, or infinity
  from \<open>2 ^ 1024\<close> on.
\<close>

function dyadic :: "nat \<Rightarrow> nat \<Rightarrow> jsnumber" where
  "dyadic m k =
     (if k = 0 then Finite (int m)
      else if m = 0 then Finite 0
      else if even m then dyadic (m div 2) (k - 1)
      else Fractional (int m) k)"
  by pat_completeness auto
termination
  by (relation "measure snd") auto

declare dyadic.simps [simp del]

definition double_of :: "nat \<Rightarrow> int \<Rightarrow> jsnumber" where
  "double_of m e =
     (if 0 \<le> e then (if m * 2 ^ nat e < 2 ^ 1024 then Finite (int (m * 2 ^ nat e)) else PosInfinity)
      else dyadic m (nat (- e)))"

text \<open>
  The double nearest to \<open>p / q\<close>: 53 binary digits are kept, fewer below
  \<open>2 ^ - 1022\<close>, where the doubles are \<open>2 ^ - 1074\<close> apart.
\<close>

definition round_fraction :: "nat \<Rightarrow> nat \<Rightarrow> jsnumber" where
  "round_fraction p q =
     (let e = max (floor_log2 p q - 52) (- 1074);
          m = (if 0 \<le> e then nearest_even p (q * 2 ^ nat e) else nearest_even (p * 2 ^ nat (- e)) q)
      in double_of m e)"

definition round_decimal :: "nat \<Rightarrow> int \<Rightarrow> jsnumber" where
  "round_decimal s x =
     (if s = 0 then Finite 0
      else if 0 \<le> x then round_fraction (s * 10 ^ nat x) 1
      else round_fraction s (10 ^ nat (- x)))"

fun negate :: "jsnumber \<Rightarrow> jsnumber" where
  "negate (Finite i) = (if i = 0 then NegativeZero else Finite (- i))"
| "negate (Fractional i k) = Fractional (- i) k"
| "negate NegativeZero = Finite 0"
| "negate NaN = NaN"
| "negate PosInfinity = NegInfinity"
| "negate NegInfinity = PosInfinity"

fun negative :: "jsnumber \<Rightarrow> bool" where
  "negative (Finite i) = (i < 0)"
| "negative (Fractional i k) = (i < 0)"
| "negative NegativeZero = True"
| "negative NegInfinity = True"
| "negative n = False"

fun magnitude :: "jsnumber \<Rightarrow> jsnumber" where
  "magnitude (Finite i) = Finite \<bar>i\<bar>"
| "magnitude (Fractional i k) = Fractional \<bar>i\<bar> k"
| "magnitude NegativeZero = Finite 0"
| "magnitude NegInfinity = PosInfinity"
| "magnitude n = n"

text \<open>
  The decimal that is equal to a finite number, and the terms of \<open>jsnumber\<close> that a
  double holds: those the rounding of their own value gives back.
\<close>

fun exact_decimal :: "jsnumber \<Rightarrow> nat \<times> int" where
  "exact_decimal (Finite i) = strip_zeros (nat \<bar>i\<bar>) 0"
| "exact_decimal (Fractional i k) = strip_zeros (nat \<bar>i\<bar> * 5 ^ k) (- int k)"
| "exact_decimal n = (0, 0)"

fun is_number :: "jsnumber \<Rightarrow> bool" where
  "is_number (Finite i) = (case exact_decimal (Finite i) of (s, x) \<Rightarrow> round_decimal s x = Finite \<bar>i\<bar>)"
| "is_number (Fractional i k) =
     (case exact_decimal (Fractional i k) of (s, x) \<Rightarrow> round_decimal s x = Fractional \<bar>i\<bar> k)"
| "is_number n = True"

subsection \<open>Number::toString\<close>

text \<open>
  \<open>floor_log10 p q\<close> is the \<open>e\<close> with \<open>10 ^ e \<le> p / q < 10 ^ (e + 1)\<close>.
\<close>

fun fraction_of :: "jsnumber \<Rightarrow> nat \<times> nat" where
  "fraction_of (Finite i) = (nat \<bar>i\<bar>, 1)"
| "fraction_of (Fractional i k) = (nat \<bar>i\<bar>, 2 ^ k)"
| "fraction_of n = (0, 1)"

definition floor_log10 :: "nat \<Rightarrow> nat \<Rightarrow> int" where
  "floor_log10 p q =
     (let d = int (length (decimal p)) - int (length (decimal q))
      in if (if 0 \<le> d then 10 ^ nat d * q \<le> p else q \<le> 10 ^ nat (- d) * p) then d else d - 1)"

text \<open>
  The decimals \<open>c * 10 ^ x\<close> next to \<open>p / q\<close>, the closer one first, the even one
  first when they are equally close.
\<close>

definition candidates :: "nat \<Rightarrow> nat \<Rightarrow> int \<Rightarrow> nat list" where
  "candidates p q x =
     (let scaled_p = (if 0 \<le> x then p else p * 10 ^ nat (- x));
          scaled_q = (if 0 \<le> x then q * 10 ^ nat x else q);
          lo = scaled_p div scaled_q;
          r = scaled_p mod scaled_q
      in if r = 0 then [lo]
         else if 2 * r < scaled_q \<or> (2 * r = scaled_q \<and> even lo) then [lo, lo + 1]
         else [lo + 1, lo])"

text \<open>
  The fewest digits that read back to \<open>n\<close>: the decimals of 1, 2, ... digits next
  to \<open>n\<close> are tried in turn. Seventeen digits always do; the exact decimal closes the
  definition.
\<close>

definition reads_back :: "jsnumber \<Rightarrow> int \<Rightarrow> nat \<Rightarrow> bool" where
  "reads_back n x c = (c \<noteq> 0 \<and> (case strip_zeros c x of (s, x') \<Rightarrow> round_decimal s x' = n))"

fun shortest_from :: "jsnumber \<Rightarrow> int \<Rightarrow> nat \<Rightarrow> nat \<Rightarrow> nat \<times> int" where
  "shortest_from n n0 k 0 = exact_decimal n"
| "shortest_from n n0 k (Suc fuel) =
     (case filter (reads_back n (n0 - int k)) (case fraction_of n of (p, q) \<Rightarrow> candidates p q (n0 - int k)) of
        c # cs \<Rightarrow> strip_zeros c (n0 - int k)
      | [] \<Rightarrow> shortest_from n n0 (Suc k) fuel)"

definition shortest :: "jsnumber \<Rightarrow> nat \<times> int" where
  "shortest n = (case fraction_of n of (p, q) \<Rightarrow> shortest_from n (floor_log10 p q + 1) 1 17)"

text \<open>
  The text of the digits \<open>ds\<close> with the decimal point after the first \<open>n\<close> of them:
  plain digits up to \<open>10 ^ 21\<close>, a fraction down to \<open>10 ^ - 6\<close>, and the exponent form
  outside.
\<close>

definition format_digits :: "string \<Rightarrow> int \<Rightarrow> string" where
  "format_digits ds n =
     (if int (length ds) \<le> n \<and> n \<le> 21 then ds @ replicate (nat (n - int (length ds))) (CHR ''0'')
      else if 0 < n \<and> n \<le> 21 then take (nat n) ds @ ''.'' @ drop (nat n) ds
      else if - 6 < n \<and> n \<le> 0 then ''0.'' @ replicate (nat (- n)) (CHR ''0'') @ ds
      else (if length ds = 1 then ds else take 1 ds @ ''.'' @ drop 1 ds) @ ''e'' @
           (if n - 1 < 0 then ''-'' else ''+'') @ decimal (nat \<bar>n - 1\<bar>))"

definition format_decimal :: "nat \<Rightarrow> int \<Rightarrow> string" where
  "format_decimal s x = format_digits (decimal s) (int (length (decimal s)) + x)"

fun ref_Number_toString :: "jsnumber \<Rightarrow> string" where
  "ref_Number_toString NaN = ''NaN''"
| "ref_Number_toString PosInfinity = ''Infinity''"
| "ref_Number_toString NegInfinity = ''-Infinity''"
| "ref_Number_toString NegativeZero = ''0''"
| "ref_Number_toString n =
     (if n = Finite 0 then ''0''
      else (if negative n then ''-'' else []) @
           (case shortest (magnitude n) of (s, x) \<Rightarrow> format_decimal s x))"

subsection \<open>StringToNumber\<close>

text \<open>
  The white space and line ends that are stripped from both ends of the text.
\<close>

definition is_white :: "char \<Rightarrow> bool" where
  "is_white c = (c = CHR 0x09 \<or> c = CHR 0x0A \<or> c = CHR 0x0B \<or> c = CHR 0x0C \<or> c = CHR 0x0D \<or>
                 c = CHR 0x20 \<or> c = CHR 0xA0)"

definition trim :: "string \<Rightarrow> string" where
  "trim s = rev (dropWhile is_white (rev (dropWhile is_white s)))"

text \<open>
  \<^verbatim>\<open>ExponentPart\<close>, or nothing: the exponent, \<open>None\<close> when the text is neither.
\<close>

definition exponent_part :: "string \<Rightarrow> int option" where
  "exponent_part s =
     (case s of
        [] \<Rightarrow> Some 0
      | c # r \<Rightarrow>
          if c = CHR ''e'' \<or> c = CHR ''E'' then
            (case r of
               [] \<Rightarrow> None
             | g # ds \<Rightarrow>
                 if g = CHR ''+'' then (if ds \<noteq> [] \<and> list_all is_digit ds then Some (int (digits_value ds 0)) else None)
                 else if g = CHR ''-'' then (if ds \<noteq> [] \<and> list_all is_digit ds then Some (- int (digits_value ds 0)) else None)
                 else (if list_all is_digit r then Some (int (digits_value r 0)) else None))
          else None)"

text \<open>
  The parts of an unsigned decimal literal: the digits before the point, whether there
  is a point, the digits after it, and the exponent. The number of the literal is its
  digits, read as one number, times the power of ten that is left.
\<close>

definition decimal_parts :: "string \<Rightarrow> (string \<times> bool \<times> string \<times> int) option" where
  "decimal_parts s =
     (let ip = takeWhile is_digit s; r1 = dropWhile is_digit s;
          dot = (r1 \<noteq> [] \<and> hd r1 = CHR ''.'');
          fp = (if dot then takeWhile is_digit (tl r1) else []);
          r2 = (if dot then dropWhile is_digit (tl r1) else r1)
      in case exponent_part r2 of
           None \<Rightarrow> None
         | Some ex \<Rightarrow> Some (ip, dot, fp, ex))"

definition literal_value :: "string \<times> bool \<times> string \<times> int \<Rightarrow> jsnumber" where
  "literal_value parts =
     (case parts of (ip, dot, fp, ex) \<Rightarrow>
        (case strip_zeros (digits_value (ip @ fp) 0) (ex - int (length fp)) of
           (s, x) \<Rightarrow> round_decimal s x))"

definition unsigned_decimal :: "string \<Rightarrow> jsnumber option" where
  "unsigned_decimal s =
     (if s = ''Infinity'' then Some PosInfinity
      else (case decimal_parts s of
              None \<Rightarrow> None
            | Some (ip, dot, fp, ex) \<Rightarrow>
                if ip = [] \<and> fp = [] then None else Some (literal_value (ip, dot, fp, ex))))"

text \<open>
  The literals \<^verbatim>\<open>0x\<close>, \<^verbatim>\<open>0o\<close> and \<^verbatim>\<open>0b\<close>, which take no sign.
\<close>

definition radix_digit :: "nat \<Rightarrow> char \<Rightarrow> nat option" where
  "radix_digit b c =
     (let v = (if CHR ''0'' \<le> c \<and> c \<le> CHR ''9'' then Some (of_char c - 48)
               else if CHR ''a'' \<le> c \<and> c \<le> CHR ''f'' then Some (of_char c - 87)
               else if CHR ''A'' \<le> c \<and> c \<le> CHR ''F'' then Some (of_char c - 55)
               else None)
      in case v of None \<Rightarrow> None | Some d \<Rightarrow> if d < b then Some d else None)"

fun radix_value :: "nat \<Rightarrow> string \<Rightarrow> nat \<Rightarrow> nat option" where
  "radix_value b [] acc = Some acc"
| "radix_value b (c # cs) acc =
     (case radix_digit b c of None \<Rightarrow> None | Some d \<Rightarrow> radix_value b cs (b * acc + d))"

definition radix_literal :: "nat \<Rightarrow> string \<Rightarrow> jsnumber" where
  "radix_literal b ds =
     (if ds = [] then NaN
      else (case radix_value b ds 0 of None \<Rightarrow> NaN | Some v \<Rightarrow> round_decimal v 0))"

text \<open>
  \<^verbatim>\<open>Number(text)\<close>: 0 for an empty text, \<^verbatim>\<open>NaN\<close> for a text that is no literal.
\<close>

definition ref_StringToNumber :: "string \<Rightarrow> jsnumber" where
  "ref_StringToNumber str =
     (let s = trim str
      in if s = [] then Finite 0
         else if take 2 s = ''0x'' \<or> take 2 s = ''0X'' then radix_literal 16 (drop 2 s)
         else if take 2 s = ''0o'' \<or> take 2 s = ''0O'' then radix_literal 8 (drop 2 s)
         else if take 2 s = ''0b'' \<or> take 2 s = ''0B'' then radix_literal 2 (drop 2 s)
         else if hd s = CHR ''-'' then (case unsigned_decimal (tl s) of None \<Rightarrow> NaN | Some n \<Rightarrow> negate n)
         else if hd s = CHR ''+'' then (case unsigned_decimal (tl s) of None \<Rightarrow> NaN | Some n \<Rightarrow> n)
         else (case unsigned_decimal s of None \<Rightarrow> NaN | Some n \<Rightarrow> n))"

subsection \<open>JSON.stringify\<close>

definition quote_char :: "char \<Rightarrow> string" where
  "quote_char c =
     (if c = CHR 0x22 then [CHR 0x5C, CHR 0x22]
      else if c = CHR 0x5C then [CHR 0x5C, CHR 0x5C]
      else if c = CHR 0x08 then [CHR 0x5C, CHR ''b'']
      else if c = CHR 0x09 then [CHR 0x5C, CHR ''t'']
      else if c = CHR 0x0A then [CHR 0x5C, CHR ''n'']
      else if c = CHR 0x0C then [CHR 0x5C, CHR ''f'']
      else if c = CHR 0x0D then [CHR 0x5C, CHR ''r'']
      else if c < CHR 0x20
      then [CHR 0x5C, CHR ''u'', CHR ''0'', CHR ''0'', digit_char (of_char c div 16), digit_char (of_char c mod 16)]
      else [c])"

definition quote :: "string \<Rightarrow> string" where
  "quote s = [CHR 0x22] @ concat (map quote_char s) @ [CHR 0x22]"

text \<open>
  A number that is not finite is written \<^verbatim>\<open>null\<close>, and the members of an object
  are written in the order of its properties.
\<close>

fun finite_number :: "jsnumber \<Rightarrow> bool" where
  "finite_number NaN = False"
| "finite_number PosInfinity = False"
| "finite_number NegInfinity = False"
| "finite_number n = True"

fun ref_stringify :: "JSONValue \<Rightarrow> string"
  and ref_elements :: "JSONValue list \<Rightarrow> string list"
  and ref_members :: "(string \<times> JSONValue) list \<Rightarrow> string list" where
  "ref_stringify JNull = ''null''"
| "ref_stringify (JBool b) = String_boolean b"
| "ref_stringify (JNumber n) = (if finite_number n then ref_Number_toString n else ''null'')"
| "ref_stringify (JString s) = quote s"
| "ref_stringify (JArray xs) = ''['' @ join '','' (ref_elements xs) @ '']''"
| "ref_stringify (JObject ms) = ''{'' @ join '','' (ref_members ms) @ ''}''"
| "ref_elements [] = []"
| "ref_elements (x # xs) = ref_stringify x # ref_elements xs"
| "ref_members [] = []"
| "ref_members ((k, v) # ms) = (quote k @ '':'' @ ref_stringify v) # ref_members ms"

subsection \<open>JSON.parse\<close>

definition is_space :: "char \<Rightarrow> bool" where
  "is_space c = (c = CHR '' '' \<or> c = CHR 0x09 \<or> c = CHR 0x0A \<or> c = CHR 0x0D)"

definition skip_space :: "string \<Rightarrow> string" where
  "skip_space s = dropWhile is_space s"

definition hex_value :: "char \<Rightarrow> nat option" where
  "hex_value c =
     (if CHR ''0'' \<le> c \<and> c \<le> CHR ''9'' then Some (of_char c - 48)
      else if CHR ''a'' \<le> c \<and> c \<le> CHR ''f'' then Some (of_char c - 87)
      else if CHR ''A'' \<le> c \<and> c \<le> CHR ''F'' then Some (of_char c - 55)
      else None)"

definition unescape :: "char \<Rightarrow> char option" where
  "unescape e =
     (if e = CHR 0x22 \<or> e = CHR 0x5C \<or> e = CHR ''/'' then Some e
      else if e = CHR ''b'' then Some (CHR 0x08)
      else if e = CHR ''t'' then Some (CHR 0x09)
      else if e = CHR ''n'' then Some (CHR 0x0A)
      else if e = CHR ''f'' then Some (CHR 0x0C)
      else if e = CHR ''r'' then Some (CHR 0x0D)
      else None)"

text \<open>
  The characters after an opening quote, up to the closing one. An escape
  \<^verbatim>\<open>\uXXXX\<close> is read when it names one of the 256 characters of this model.
\<close>

fun read_string :: "string \<Rightarrow> string \<Rightarrow> (string \<times> string) option" where
  "read_string [] acc = None"
| "read_string [c] acc = (if c = CHR 0x22 then Some (rev acc, []) else None)"
| "read_string (c # e # cs) acc =
     (if c = CHR 0x22 then Some (rev acc, e # cs)
      else if c = CHR 0x5C then
        (if e = CHR ''u'' then
           (case cs of
              h1 # h2 # h3 # h4 # cs' \<Rightarrow>
                (case (hex_value h1, hex_value h2, hex_value h3, hex_value h4) of
                   (Some 0, Some 0, Some a, Some b) \<Rightarrow> read_string cs' (char_of (16 * a + b) # acc)
                 | _ \<Rightarrow> None)
            | _ \<Rightarrow> None)
         else (case unescape e of None \<Rightarrow> None | Some ch \<Rightarrow> read_string cs (ch # acc)))
      else if c < CHR 0x20 then None
      else read_string (e # cs) (c # acc))"

text \<open>
  A number of JSON: the longest run of the characters a number is written with, which
  has to be a minus sign or none, digits with no leading zero, a fraction or none and an
  exponent or none.
\<close>

definition is_number_char :: "char \<Rightarrow> bool" where
  "is_number_char c =
     (is_digit c \<or> c = CHR ''.'' \<or> c = CHR ''e'' \<or> c = CHR ''E'' \<or> c = CHR ''+'' \<or> c = CHR ''-'')"

definition read_number :: "string \<Rightarrow> (JSONValue \<times> string) option" where
  "read_number s =
     (let token = takeWhile is_number_char s;
          rest = dropWhile is_number_char s;
          minus = (token \<noteq> [] \<and> hd token = CHR ''-'');
          body = (if minus then tl token else token)
      in case decimal_parts body of
           None \<Rightarrow> None
         | Some (ip, dot, fp, ex) \<Rightarrow>
             if ip = [] \<or> (1 < length ip \<and> hd ip = CHR ''0'') \<or> (dot \<and> fp = []) then None
             else Some (JNumber (if minus then negate (literal_value (ip, dot, fp, ex))
                                 else literal_value (ip, dot, fp, ex)), rest))"

text \<open>
  The properties of an object: a key that is written twice keeps its place and takes
  the later value, and the keys that are array indices come first, in ascending order.
\<close>

definition array_index :: "string \<Rightarrow> nat option" where
  "array_index k =
     (if k \<noteq> [] \<and> list_all is_digit k \<and> (length k = 1 \<or> hd k \<noteq> CHR ''0'') \<and>
         digits_value k 0 < 4294967295
      then Some (digits_value k 0) else None)"

fun define_property :: "(string \<times> 'a) list \<Rightarrow> string \<times> 'a \<Rightarrow> (string \<times> 'a) list" where
  "define_property [] p = [p]"
| "define_property (m # ms) p = (if fst m = fst p then p # ms else m # define_property ms p)"

definition own_properties :: "(string \<times> 'a) list \<Rightarrow> (string \<times> 'a) list" where
  "own_properties ms =
     sort_key (\<lambda>m. the (array_index (fst m))) (filter (\<lambda>m. array_index (fst m) \<noteq> None) ms) @
     filter (\<lambda>m. array_index (fst m) = None) ms"

definition object_of :: "(string \<times> 'a) list \<Rightarrow> (string \<times> 'a) list" where
  "object_of members = own_properties (foldl define_property [] members)"

text \<open>
  The parser proper. Its first argument bounds the depth of the recursion; the length of
  the text is enough.
\<close>

fun read_value :: "nat \<Rightarrow> string \<Rightarrow> (JSONValue \<times> string) option"
  and read_elements :: "nat \<Rightarrow> string \<Rightarrow> (JSONValue list \<times> string) option"
  and read_members :: "nat \<Rightarrow> string \<Rightarrow> ((string \<times> JSONValue) list \<times> string) option" where
  "read_value 0 s = None"
| "read_value (Suc n) s =
     (case skip_space s of
        [] \<Rightarrow> None
      | c # r \<Rightarrow>
          if c = CHR 0x22 then
            (case read_string r [] of None \<Rightarrow> None | Some (str, r') \<Rightarrow> Some (JString str, r'))
          else if c = CHR ''['' then
            (case skip_space r of
               [] \<Rightarrow> None
             | c' # r' \<Rightarrow>
                 if c' = CHR '']'' then Some (JArray [], r')
                 else (case read_elements n r of None \<Rightarrow> None | Some (xs, r'') \<Rightarrow> Some (JArray xs, r'')))
          else if c = CHR ''{'' then
            (case skip_space r of
               [] \<Rightarrow> None
             | c' # r' \<Rightarrow>
                 if c' = CHR ''}'' then Some (JObject [], r')
                 else (case read_members n r of None \<Rightarrow> None | Some (ms, r'') \<Rightarrow> Some (JObject (object_of ms), r'')))
          else if take 4 (c # r) = ''null'' then Some (JNull, drop 4 (c # r))
          else if take 4 (c # r) = ''true'' then Some (JBool True, drop 4 (c # r))
          else if take 5 (c # r) = ''false'' then Some (JBool False, drop 5 (c # r))
          else read_number (c # r))"
| "read_elements 0 s = None"
| "read_elements (Suc n) s =
     (case read_value n s of
        None \<Rightarrow> None
      | Some (x, r) \<Rightarrow>
          (case skip_space r of
             [] \<Rightarrow> None
           | c # r' \<Rightarrow>
               if c = CHR '','' then
                 (case read_elements n r' of None \<Rightarrow> None | Some (xs, r'') \<Rightarrow> Some (x # xs, r''))
               else if c = CHR '']'' then Some ([x], r')
               else None))"
| "read_members 0 s = None"
| "read_members (Suc n) s =
     (case skip_space s of
        [] \<Rightarrow> None
      | q # r0 \<Rightarrow>
          if q \<noteq> CHR 0x22 then None
          else (case read_string r0 [] of
                  None \<Rightarrow> None
                | Some (k, r1) \<Rightarrow>
                    (case skip_space r1 of
                       [] \<Rightarrow> None
                     | colon # r2 \<Rightarrow>
                         if colon \<noteq> CHR '':'' then None
                         else (case read_value n r2 of
                                 None \<Rightarrow> None
                               | Some (x, r3) \<Rightarrow>
                                   (case skip_space r3 of
                                      [] \<Rightarrow> None
                                    | c # r4 \<Rightarrow>
                                        if c = CHR '','' then
                                          (case read_members n r4 of
                                             None \<Rightarrow> None
                                           | Some (ms, r5) \<Rightarrow> Some ((k, x) # ms, r5))
                                        else if c = CHR ''}'' then Some ([(k, x)], r4)
                                        else None)))))"

definition ref_parse :: "string \<Rightarrow> error + JSONValue" where
  "ref_parse s =
     (case read_value (Suc (length s)) s of
        None \<Rightarrow> Inl SyntaxError
      | Some (j, r) \<Rightarrow> if skip_space r = [] then Inr j else Inl SyntaxError)"

definition reference :: platform where
  "reference =
     \<lparr>Number_toString = ref_Number_toString, StringToNumber = ref_StringToNumber,
      JSON_stringify = ref_stringify, JSON_parse = ref_parse\<rparr>"

section \<open>Auxiliary notions for the statements below\<close>

text \<open>
  The row the engine holds after an upsert with the arguments of \<open>set\<close>: it carries the
  blob, text and type of an encoded value.
\<close>

definition stored_row :: "string \<Rightarrow> encoded \<Rightarrow> string \<Rightarrow> int option \<Rightarrow> row" where
  "stored_row k enc ver ex =
     \<lparr>key = k,
      value_blob = (case enc_blob enc of None \<Rightarrow> Null | Some b \<Rightarrow> Val b),
      value_text = (case enc_text enc of None \<Rightarrow> Null | Some t \<Rightarrow> Val t),
      value_type = Val (enc_type enc),
      version = ver,
      expires_at = ex\<rparr>"

text \<open>\<^verbatim>\<open>if (options.prefix)\<close> and \<^verbatim>\<open>if (options.limit)\<close>: an empty prefix and a limit of 0 are falsy.\<close>

definition effective_prefix :: "ListOptions \<Rightarrow> string option" where
  "effective_prefix options =
     (case prefix options of None \<Rightarrow> None | Some p \<Rightarrow> if p \<noteq> [] then Some p else None)"

definition effective_limit :: "ListOptions \<Rightarrow> int option" where
  "effective_limit options =
     (case limit options of None \<Rightarrow> None | Some n \<Rightarrow> if n \<noteq> 0 then Some n else None)"

text \<open>
  Equality of two values as a caller sees it: the same JSON value, or the same bytes in
  the same order (a decoded \<^verbatim>\<open>Uint8Array\<close> is a fresh view, so its buffer and
  offset may differ from the original's).
\<close>

fun same_value :: "KVValue \<Rightarrow> KVValue \<Rightarrow> bool" where
  "same_value (Binary a) (Binary b) = (bytes_of a = bytes_of b)"
| "same_value (Json x) (Json y) = (x = y)"
| "same_value (Binary a) (Json y) = False"
| "same_value (Json x) (Binary b) = False"

text \<open>
  What the round trip of a value asks of the platform: \<^verbatim>\<open>Number(String(n)) = n\<close> for
  a number, \<^verbatim>\<open>JSON.parse(JSON.stringify(j)) = j\<close> for \<^verbatim>\<open>null\<close>, an array or an
  object, and nothing for a string, a boolean or bytes.
\<close>

fun platform_inverts :: "platform \<Rightarrow> KVValue \<Rightarrow> bool" where
  "platform_inverts P (Binary arr) = True"
| "platform_inverts P (Json (JString s)) = True"
| "platform_inverts P (Json (JNumber n)) = (StringToNumber P (String_number P n) = n)"
| "platform_inverts P (Json (JBool b)) = True"
| "platform_inverts P (Json j) = (JSON_parse P (JSON_stringify P j) = Inr j)"

fun value_ok :: "KVValue \<Rightarrow> bool" where
  "value_ok (Binary arr) = view_ok arr"
| "value_ok (Json j) = True"

text \<open>
  What the specification says of the predicate compiler, written out to be compared
  with \<open>buildWhereSql\<close>: the operator a condition is compiled with
  (\<open>allowed_operator\<close>), the text and the arguments of a filter in which every
  condition, at every depth, has that operator (\<open>where_fragment\<close>,
  \<open>where_arguments\<close>), and the filters in which every \<^verbatim>\<open>NOT\<close> that is compiled has
  a condition (\<open>negations_filled\<close>). Of the conditions under a \<^verbatim>\<open>NOT\<close> the code
  reads the first only.
\<close>

definition allowed_operator :: "WhereCondition \<Rightarrow> string" where
  "allowed_operator c =
     (if cond_operator c \<in> {''='', ''>'', ''<'', ''LIKE'', ''!=''} then cond_operator c else ''='')"

fun where_fragment :: "Filter \<Rightarrow> string" where
  "where_fragment (Condition c) = ''json_extract(value_text, ?) '' @ allowed_operator c @ '' ?''"
| "where_fragment (LogicResult Op_NOT []) = ''NOT ()''"
| "where_fragment (LogicResult Op_NOT (first # rest)) = ''NOT ('' @ where_fragment first @ '')''"
| "where_fragment (LogicResult lop fs) =
     ''('' @ join ('' '' @ op_text lop @ '' '') (map where_fragment fs) @ '')''"

fun where_arguments :: "Filter \<Rightarrow> InValue list" where
  "where_arguments (Condition c) = [IString (''$.'' @ cond_field c), cond_value c]"
| "where_arguments (LogicResult Op_NOT []) = []"
| "where_arguments (LogicResult Op_NOT (first # rest)) = where_arguments first"
| "where_arguments (LogicResult lop fs) = concat (map where_arguments fs)"

fun negations_filled :: "Filter \<Rightarrow> bool" where
  "negations_filled (Condition c) = True"
| "negations_filled (LogicResult Op_NOT []) = False"
| "negations_filled (LogicResult Op_NOT (first # rest)) = negations_filled first"
| "negations_filled (LogicResult lop fs) = list_all negations_filled fs"

text \<open>
  A value of JavaScript: its numbers are doubles, its objects list their properties in
  order, and a byte view lies inside its buffer.
\<close>

fun js_json :: "JSONValue \<Rightarrow> bool"
  and js_elements :: "JSONValue list \<Rightarrow> bool"
  and js_members :: "(string \<times> JSONValue) list \<Rightarrow> bool" where
  "js_json (JNumber n) = is_number n"
| "js_json (JArray xs) = js_elements xs"
| "js_json (JObject ms) = (object_of ms = ms \<and> js_members ms)"
| "js_json j = True"
| "js_elements [] = True"
| "js_elements (x # xs) = (js_json x \<and> js_elements xs)"
| "js_members [] = True"
| "js_members ((k, v) # ms) = (js_json v \<and> js_members ms)"

fun js_value :: "KVValue \<Rightarrow> bool" where
  "js_value (Binary arr) = view_ok arr"
| "js_value (Json j) = js_json j"

text \<open>
  A value whose numbers, at every depth, are finite and other than \<open>-0\<close>.
\<close>

fun plain_json :: "JSONValue \<Rightarrow> bool"
  and plain_elements :: "JSONValue list \<Rightarrow> bool"
  and plain_members :: "(string \<times> JSONValue) list \<Rightarrow> bool" where
  "plain_json (JNumber n) = (finite_number n \<and> n \<noteq> NegativeZero)"
| "plain_json (JArray xs) = plain_elements xs"
| "plain_json (JObject ms) = plain_members ms"
| "plain_json j = True"
| "plain_elements [] = True"
| "plain_elements (x # xs) = (plain_json x \<and> plain_elements xs)"
| "plain_members [] = True"
| "plain_members ((k, v) # ms) = (plain_json v \<and> plain_members ms)"

fun plain_value :: "KVValue \<Rightarrow> bool" where
  "plain_value (Binary arr) = True"
| "plain_value (Json j) = plain_json j"

text \<open>
  A text is a decimal literal that stands for \<open>s * 10 ^ x\<close>, written as JSON asks.
\<close>

definition literal_ok :: "nat \<Rightarrow> int \<Rightarrow> string \<Rightarrow> bool" where
  "literal_ok s x str =
     (case decimal_parts str of
        None \<Rightarrow> False
      | Some (ip, dot, fp, ex) \<Rightarrow>
          ip \<noteq> [] \<and> (dot \<longrightarrow> fp \<noteq> []) \<and> (1 < length ip \<longrightarrow> hd ip \<noteq> CHR ''0'') \<and>
          strip_zeros (digits_value (ip @ fp) 0) (ex - int (length fp)) = (s, x))"

text \<open>
  An executor that also records, in order, every statement it is handed; \<open>texts_of\<close>
  reads the SQL texts out of what an operation returns when run on it.
\<close>

definition recording :: "'s executor \<Rightarrow> ('s \<times> (string \<times> InValue list) list) executor" where
  "recording execute sql args sl =
     (case execute sql args (fst sl) of (res, s') \<Rightarrow> (res, (s', snd sl @ [(sql, args)])))"

definition texts_of :: "'a \<times> 's \<times> (string \<times> InValue list) list \<Rightarrow> string list" where
  "texts_of out = map fst (snd (snd out))"

text \<open>
  The shape of a filter and of the options of \<open>list\<close>: every field name, comparison
  value, prefix and limit is replaced by a fixed one, an operator by what the allow-list
  makes of it; what is left is the operators of the tree, which options are truthy, and
  the direction.
\<close>

fun erase_filter :: "Filter \<Rightarrow> Filter" where
  "erase_filter (Condition c) =
     Condition \<lparr>cond_field = [],
                cond_operator = (if cond_operator c \<in> set safeOps then cond_operator c else ''=''),
                cond_value = INull\<rparr>"
| "erase_filter (LogicResult lop fs) = LogicResult lop (map erase_filter fs)"

fun erase_where :: "where_option \<Rightarrow> where_option" where
  "erase_where (Where_condition c) =
     Where_condition \<lparr>cond_field = [],
                      cond_operator = (if cond_operator c \<in> set safeOps then cond_operator c else ''=''),
                      cond_value = INull\<rparr>"
| "erase_where (Where_callback f) = Where_callback (erase_filter f)"

definition shape_of :: "ListOptions \<Rightarrow> ListOptions" where
  "shape_of options =
     \<lparr>prefix = map_option (\<lambda>p. ''x'') (effective_prefix options),
      limit = map_option (\<lambda>n. 1) (effective_limit options),
      cursor = None,
      where_clause = map_option erase_where (where_clause options),
      reverse = reverse options\<rparr>"

section \<open>The engine on the statements of the store\<close>

lemma sql_texts_differ:
  "get_sql \<noteq> del_sql" "get_sql \<noteq> cleanupExpired_sql" "get_sql \<noteq> set_sql"
  "del_sql \<noteq> cleanupExpired_sql" "del_sql \<noteq> set_sql" "cleanupExpired_sql \<noteq> set_sql"
  "del_sql \<noteq> get_sql" "cleanupExpired_sql \<noteq> get_sql" "set_sql \<noteq> get_sql"
  "cleanupExpired_sql \<noteq> del_sql" "set_sql \<noteq> del_sql" "set_sql \<noteq> cleanupExpired_sql"
  by (simp_all add: get_sql_def del_sql_def cleanupExpired_sql_def set_sql_def tableName_def)

lemma getMany_sql_differs:
  "getMany_sql keys \<noteq> get_sql" "getMany_sql keys \<noteq> del_sql"
  "getMany_sql keys \<noteq> cleanupExpired_sql" "getMany_sql keys \<noteq> set_sql"
  by (simp_all add: getMany_sql_def get_sql_def del_sql_def cleanupExpired_sql_def set_sql_def tableName_def)

lemma sqlite_get: "sqlite J get_sql [IString k] t = (Inr (filter (\<lambda>r. key r = k) t), t)"
  by (simp add: sqlite_def)

lemma sqlite_del: "sqlite J del_sql [IString k] t = (Inr [], filter (\<lambda>r. key r \<noteq> k) t)"
  by (simp add: sqlite_def sql_texts_differ)

lemma sqlite_cleanupExpired:
  "sqlite J cleanupExpired_sql [INumber (Finite now)] t =
     (Inr [], filter (\<lambda>r. \<not> (case expires_at r of None \<Rightarrow> False | Some e \<Rightarrow> e < now)) t)"
  by (simp add: sqlite_def sql_texts_differ)

lemma enc_type_checked: "enc_type (encodeValue P v) \<in> set checked_types"
  by (induction P v rule: encodeValue.induct) (simp_all add: checked_types_def)

lemma upsert_row_set_args:
  "upsert_row (set_args k enc ver ex) = Some (stored_row k enc ver ex)"
  by (simp add: set_args_def stored_row_def split: option.splits)

lemma sqlite_set:
  "sqlite J set_sql (set_args k (encodeValue P v) ver ex) t =
     (Inr [], upsert (stored_row k (encodeValue P v) ver ex) t)"
  using enc_type_checked [of P v]
  by (simp add: sqlite_def sql_texts_differ upsert_row_set_args stored_row_def)

lemma placeholders_map: "placeholders (map f xs) = placeholders xs"
  by (simp add: placeholders_def comp_def)

lemma text_arguments_map: "text_arguments (map IString ks) = Some ks"
  by (induction ks) simp_all

lemma sqlite_getMany:
  "keys \<noteq> [] \<Longrightarrow>
   sqlite J (getMany_sql keys) (map IString keys) t = (Inr (filter (\<lambda>r. key r \<in> set keys) t), t)"
  by (simp add: sqlite_def getMany_sql_differs text_arguments_map)
     (simp add: getMany_sql_def placeholders_map)

lemma parse_list_plain:
  "parse_list (list_head @ (if pre then '' AND key LIKE ?'' else []) @ '' ORDER BY key '' @
      (if desc then ''DESC'' else ''ASC'') @ (if lim then '' LIMIT ?'' else [])) =
   Some \<lparr>by_prefix = pre, json_filter = None, descending = desc, limited = lim\<rparr>"
proof -
  have "\<forall>pre desc lim. parse_list (list_head @ (if pre then '' AND key LIKE ?'' else []) @ '' ORDER BY key '' @
      (if desc then ''DESC'' else ''ASC'') @ (if lim then '' LIMIT ?'' else [])) =
   Some \<lparr>by_prefix = pre, json_filter = None, descending = desc, limited = lim\<rparr>"
    by code_simp
  then show ?thesis by blast
qed

lemma list_sql_not_fixed:
  "list_head @ s \<noteq> get_sql" "list_head @ s \<noteq> del_sql" "list_head @ s \<noteq> cleanupExpired_sql"
  "list_head @ s \<noteq> set_sql" "list_head @ s \<noteq> getMany_sql args"
  by (simp_all add: list_head_def getMany_sql_def get_sql_def del_sql_def cleanupExpired_sql_def
        set_sql_def tableName_def)

lemma list_statement_plain:
  assumes "where_clause options = None"
  shows "list_statement now options =
    Inr (list_head @ (if effective_prefix options \<noteq> None then '' AND key LIKE ?'' else []) @ '' ORDER BY key '' @
      (if reverse options then ''DESC'' else ''ASC'') @ (if effective_limit options \<noteq> None then '' LIMIT ?'' else []),
      [INumber (Finite now)] @ (case effective_prefix options of None \<Rightarrow> [] | Some p \<Rightarrow> [IString (p @ ''%'')])
        @ (case effective_limit options of None \<Rightarrow> [] | Some n \<Rightarrow> [INumber (Finite n)]))"
  using assms
  by (simp add: list_statement_def list_head_def effective_prefix_def effective_limit_def Let_def
        split: option.splits)

lemma select_list_plain:
  "select_list J \<lparr>by_prefix = (pre \<noteq> None), json_filter = None, descending = desc, limited = (lim \<noteq> None)\<rparr>
     ([INumber (Finite now)] @ (case pre of None \<Rightarrow> [] | Some p \<Rightarrow> [IString (p @ ''%'')])
        @ (case lim of None \<Rightarrow> [] | Some n \<Rightarrow> [INumber (Finite n)])) t =
   Inr (order_limit desc lim
         (filter (\<lambda>r. live now r \<and> (case pre of None \<Rightarrow> True | Some p \<Rightarrow> like (p @ ''%'') (key r))) t))"
  by (cases pre; cases lim) (simp_all add: select_list_def)

lemma list_kv_plain:
  assumes "where_clause options = None"
  shows "list_kv (sqlite J) P now options t =
    (map_throwing (entry_of P)
       (order_limit (reverse options) (effective_limit options)
          (filter (\<lambda>r. live now r \<and>
              (case effective_prefix options of None \<Rightarrow> True | Some p \<Rightarrow> like (p @ ''%'') (key r))) t)), t)"
  unfolding list_kv_def list_statement_plain [OF assms]
  by (simp add: sqlite_def list_sql_not_fixed parse_list_plain select_list_plain
        del: append.simps append_Cons not_None_eq)

lemma upsert_has_key: "\<exists>r\<in>set (upsert new t). key r = key new"
  by (auto simp: upsert_def)

lemma upsert_same_key:
  assumes "r \<in> set (upsert new t)" and "key r = key new"
  shows "r = new"
proof (cases "key new \<in> key ` set t")
  case True
  then show ?thesis using assms by (auto simp: upsert_def)
next
  case False
  then have "r \<notin> set t" using assms(2) by (metis image_eqI)
  then show ?thesis using assms(1) False by (simp add: upsert_def)
qed

lemma set_kv_sqlite:
  "set_kv (sqlite J) P now ver k v options t =
     (Inr (), upsert (stored_row k (encodeValue P v) ver (expiresAt now options)) t)"
  by (simp add: set_kv_def sqlite_set)

lemma key_stored_row [simp]: "key (stored_row k enc ver ex) = k"
  by (simp add: stored_row_def)

lemma expires_at_stored_row [simp]: "expires_at (stored_row k enc ver ex) = ex"
  by (simp add: stored_row_def)

lemma version_stored_row [simp]: "version (stored_row k enc ver ex) = ver"
  by (simp add: stored_row_def)

section \<open>Non-finite numbers (claim C6)\<close>

text \<open>
  Claim C6 says that encoding NaN, +Infinity or -Infinity fails with an error and that
  no text form of a non-finite number is ever written. \<open>encodeValue\<close> has no failing
  branch: the counterexample runs \<open>set\<close> with NaN on an empty table, which succeeds
  and leaves a row of type \<^verbatim>\<open>number\<close> with the text \<^verbatim>\<open>NaN\<close>.
\<close>

theorem encode_NaN_counterexample:
  "set_kv (sqlite None) reference 1000 ''v1'' ''k'' (Json (JNumber NaN)) \<lparr>expireIn = None\<rparr> [] =
     (Inr (), [\<lparr>key = ''k'', value_blob = Null, value_text = Val ''NaN'', value_type = Val ''number'',
                version = ''v1'', expires_at = None\<rparr>])"
  by (simp add: set_kv_sqlite upsert_def stored_row_def expiresAt_def)

text \<open>
  Claim C6, amended: for each of the three non-finite numbers \<open>encodeValue\<close> returns,
  without an error, a result of type \<^verbatim>\<open>number\<close> whose text is \<^verbatim>\<open>NaN\<close>,
  \<^verbatim>\<open>Infinity\<close> or \<^verbatim>\<open>-Infinity\<close>, and \<open>set\<close> stores that row.
\<close>

theorem encode_non_finite:
  "encodeValue P (Json (JNumber NaN)) =
     \<lparr>enc_blob = None, enc_text = Some ''NaN'', enc_type = ''number''\<rparr> \<and>
   encodeValue P (Json (JNumber PosInfinity)) =
     \<lparr>enc_blob = None, enc_text = Some ''Infinity'', enc_type = ''number''\<rparr> \<and>
   encodeValue P (Json (JNumber NegInfinity)) =
     \<lparr>enc_blob = None, enc_text = Some ''-Infinity'', enc_type = ''number''\<rparr> \<and>
   set_kv (sqlite J) P now ver k (Json (JNumber NaN)) options t =
     (Inr (), upsert \<lparr>key = k, value_blob = Null, value_text = Val ''NaN'', value_type = Val ''number'',
                      version = ver, expires_at = expiresAt now options\<rparr> t) \<and>
   set_kv (sqlite J) P now ver k (Json (JNumber PosInfinity)) options t =
     (Inr (), upsert \<lparr>key = k, value_blob = Null, value_text = Val ''Infinity'', value_type = Val ''number'',
                      version = ver, expires_at = expiresAt now options\<rparr> t) \<and>
   set_kv (sqlite J) P now ver k (Json (JNumber NegInfinity)) options t =
     (Inr (), upsert \<lparr>key = k, value_blob = Null, value_text = Val ''-Infinity'', value_type = Val ''number'',
                      version = ver, expires_at = expiresAt now options\<rparr> t)"
  by (simp add: set_kv_sqlite stored_row_def)

section \<open>The stored deadline (claim C8)\<close>

text \<open>
  Claim C8 says that whenever \<^verbatim>\<open>expireIn\<close> is provided the stored \<^verbatim>\<open>expires_at\<close> is
  the call's \<open>now\<close> plus \<^verbatim>\<open>expireIn\<close>. The code tests \<^verbatim>\<open>options?.expireIn\<close> for
  truthiness: with \<^verbatim>\<open>expireIn: 0\<close> at time 1000 the stored deadline is \<^verbatim>\<open>null\<close>,
  not 1000.
\<close>

theorem expireIn_zero_counterexample:
  "snd (set_kv (sqlite None) reference 1000 ''v1'' ''k'' (Json (JString ''a'')) \<lparr>expireIn = Some 0\<rparr> []) =
     [\<lparr>key = ''k'', value_blob = Null, value_text = Val ''a'', value_type = Val ''string'',
       version = ''v1'', expires_at = None\<rparr>]"
  by (simp add: set_kv_sqlite upsert_def stored_row_def expiresAt_def)

text \<open>
  Claim C8, amended: after \<open>set\<close> the table has a row for the key, and a row for the
  key has \<^verbatim>\<open>expires_at = now + expireIn\<close> when \<^verbatim>\<open>expireIn\<close> was provided and is not
  0, and \<^verbatim>\<open>expires_at = null\<close> when it was not provided or is 0.
\<close>

theorem set_expires_at:
  "(\<exists>r\<in>set (snd (set_kv (sqlite J) P now ver k v options t)). key r = k) \<and>
   (\<forall>r\<in>set (snd (set_kv (sqlite J) P now ver k v options t)). key r = k \<longrightarrow>
      (\<forall>d. expireIn options = Some d \<and> d \<noteq> 0 \<longrightarrow> expires_at r = Some (now + d)) \<and>
      (expireIn options = None \<or> expireIn options = Some 0 \<longrightarrow> expires_at r = None))"
proof -
  let ?new = "stored_row k (encodeValue P v) ver (expiresAt now options)"
  have t': "snd (set_kv (sqlite J) P now ver k v options t) = upsert ?new t"
    by (simp add: set_kv_sqlite)
  have present: "\<exists>r\<in>set (upsert ?new t). key r = k"
    using upsert_has_key [of ?new t] by simp
  have stored: "expires_at r = expiresAt now options" if "r \<in> set (upsert ?new t)" "key r = k" for r
  proof -
    have "r = ?new" using upsert_same_key [of r ?new t] that by simp
    then show ?thesis by simp
  qed
  have given: "expiresAt now options = Some (now + d)" if "expireIn options = Some d" "d \<noteq> 0" for d
    using that by (simp add: expiresAt_def)
  have none: "expiresAt now options = None" if "expireIn options = None \<or> expireIn options = Some 0"
    using that by (auto simp: expiresAt_def)
  show ?thesis
    unfolding t' using present stored given none by auto
qed

theorem set_expires_at_witness:
  "expireIn \<lparr>expireIn = Some 500\<rparr> = Some 500 \<and> (500::int) \<noteq> 0 \<and>
   snd (set_kv (sqlite None) reference 1000 ''v1'' ''k'' (Json (JBool True)) \<lparr>expireIn = Some 500\<rparr> []) =
     [\<lparr>key = ''k'', value_blob = Null, value_text = Val ''true'', value_type = Val ''boolean'',
       version = ''v1'', expires_at = Some 1500\<rparr>] \<and>
   expires_at \<lparr>key = ''k'', value_blob = Null, value_text = Val ''true'', value_type = Val ''boolean'',
       version = ''v1'', expires_at = Some 1500\<rparr> = Some (1000 + 500) \<and>
   snd (set_kv (sqlite None) reference 1000 ''v1'' ''k'' (Json (JBool True)) \<lparr>expireIn = None\<rparr> []) =
     [\<lparr>key = ''k'', value_blob = Null, value_text = Val ''true'', value_type = Val ''boolean'',
       version = ''v1'', expires_at = None\<rparr>]"
  using set_expires_at [of None reference 1000 "''v1''" "''k''" "Json (JBool True)" "\<lparr>expireIn = Some 500\<rparr>" "[]"]
    set_expires_at [of None reference 1000 "''v1''" "''k''" "Json (JBool True)" "\<lparr>expireIn = None\<rparr>" "[]"]
  by (simp add: set_kv_sqlite upsert_def stored_row_def expiresAt_def String_boolean_def)

section \<open>The reference platform reads back what it writes\<close>

text \<open>
  On the reference platform the text of a number is read back to that number, for every
  double but the negative zero, and the JSON text of a value is parsed back to that
  value when its numbers are finite and other than \<open>-0\<close>.
\<close>

subsection \<open>Digits and decimals\<close>

lemma below_16:
  assumes "n < (16::nat)"
  shows "n \<in> {15, 14, 13, 12, 11, 10, 9, 8, 7, 6, 5, 4, 3, 2, 1, 0}"
  using assms by simp arith

lemma digit_char_digit:
  assumes "n < 10"
  shows "is_digit (digit_char n)" and "of_char (digit_char n) - 48 = n"
proof -
  from assms have "n < 16" by simp
  from below_16 [OF this] assms show "is_digit (digit_char n)" and "of_char (digit_char n) - 48 = n"
    by (auto simp add: is_digit_def digit_char_def)
qed

lemma digit_char_not_zero:
  assumes "0 < n" and "n < 10"
  shows "digit_char n \<noteq> CHR ''0''"
proof -
  from assms have "n < 16" by simp
  from below_16 [OF this] assms show ?thesis
    by (auto simp add: digit_char_def)
qed

lemma decimal_unfold: "10 \<le> n \<Longrightarrow> decimal n = decimal (n div 10) @ [digit_char (n mod 10)]"
  by (subst decimal.simps) simp

lemma decimal_small: "n < 10 \<Longrightarrow> decimal n = [digit_char n]"
  by (subst decimal.simps) simp

lemma decimal_digits: "list_all is_digit (decimal n)"
proof (induction n rule: less_induct)
  case (less n)
  show ?case
  proof (cases "n < 10")
    case True
    then show ?thesis by (simp only: decimal_small) (simp add: digit_char_digit)
  next
    case False
    then have "list_all is_digit (decimal (n div 10))" by (intro less) simp
    with False show ?thesis by (simp only: decimal_unfold) (simp add: digit_char_digit)
  qed
qed

lemma decimal_not_empty: "decimal n \<noteq> []"
  by (subst decimal.simps) simp

lemma digits_value_append:
  "digits_value (xs @ ys) acc = digits_value ys (digits_value xs acc)"
  by (induction xs arbitrary: acc) simp_all

lemma digits_value_decimal: "digits_value (decimal n) 0 = n"
proof (induction n rule: less_induct)
  case (less n)
  show ?case
  proof (cases "n < 10")
    case True
    then show ?thesis by (simp only: decimal_small) (simp add: digit_char_digit)
  next
    case False
    then have "digits_value (decimal (n div 10)) 0 = n div 10" by (intro less) simp
    with False show ?thesis
      by (simp only: decimal_unfold digits_value_append) (simp add: digit_char_digit)
  qed
qed

lemma decimal_leading:
  assumes "0 < n"
  shows "hd (decimal n) \<noteq> CHR ''0''"
  using assms
proof (induction n rule: less_induct)
  case (less n)
  show ?case
  proof (cases "n < 10")
    case True
    with less.prems show ?thesis by (simp only: decimal_small) (simp add: digit_char_not_zero)
  next
    case False
    then have "hd (decimal (n div 10)) \<noteq> CHR ''0''" by (intro less) simp_all
    with False show ?thesis by (simp only: decimal_unfold) (simp add: decimal_not_empty)
  qed
qed

lemma digits_value_zeros: "digits_value (replicate j (CHR ''0'')) acc = acc * 10 ^ j"
  by (induction j arbitrary: acc) simp_all

lemma strip_zeros_unfold:
  "s \<noteq> 0 \<Longrightarrow> s mod 10 = 0 \<Longrightarrow> strip_zeros s x = strip_zeros (s div 10) (x + 1)"
  "s = 0 \<or> s mod 10 \<noteq> 0 \<Longrightarrow> strip_zeros s x = (s, x)"
  by (auto simp add: strip_zeros.simps [of s x])

lemma strip_zeros_power:
  assumes "s mod 10 \<noteq> 0"
  shows "strip_zeros (s * 10 ^ j) (x - int j) = (s, x)"
proof (induction j arbitrary: x)
  case 0
  with assms show ?case by (simp add: strip_zeros_unfold(2))
next
  case (Suc j)
  from assms have "s \<noteq> 0" by auto
  then have "strip_zeros (s * 10 ^ Suc j) (x - int (Suc j)) = strip_zeros (s * 10 ^ j) (x - int (Suc j) + 1)"
    by (subst strip_zeros_unfold(1)) simp_all
  also have "x - int (Suc j) + 1 = x - int j" by simp
  finally show ?case using Suc by (simp)
qed

lemma strip_zeros_canonical:
  assumes "strip_zeros s x = (s', x')"
  shows "s' = 0 \<or> s' mod 10 \<noteq> 0"
  using assms
proof (induction s x rule: strip_zeros.induct)
  case (1 s x)
  show ?case
  proof (cases "s \<noteq> 0 \<and> s mod 10 = 0")
    case True
    with "1.prems" have "strip_zeros (s div 10) (x + 1) = (s', x')"
      by (simp add: strip_zeros_unfold(1))
    with True "1.IH" show ?thesis by simp
  next
    case False
    with "1.prems" have "s' = s" by (simp add: strip_zeros_unfold(2))
    with False show ?thesis by auto
  qed
qed

lemma strip_zeros_not_zero:
  assumes "strip_zeros s x = (s', x')" and "s \<noteq> 0"
  shows "s' \<noteq> 0"
  using assms
proof (induction s x rule: strip_zeros.induct)
  case (1 s x)
  show ?case
  proof (cases "s mod 10 = 0")
    case True
    with "1.prems" have s: "strip_zeros (s div 10) (x + 1) = (s', x')"
      by (simp add: strip_zeros_unfold(1))
    from True "1.prems" have "s div 10 \<noteq> 0" by auto
    with True "1.prems" s "1.IH" show ?thesis by simp
  next
    case False
    with "1.prems" have "s' = s" by (simp add: strip_zeros_unfold(2))
    with "1.prems" show ?thesis by simp
  qed
qed

subsection \<open>The parts of a literal\<close>

lemma span_digits:
  assumes "list_all is_digit xs" and "rest = [] \<or> \<not> is_digit (hd rest)"
  shows "takeWhile is_digit (xs @ rest) = xs" and "dropWhile is_digit (xs @ rest) = rest"
proof -
  from assms(2) have t: "takeWhile is_digit rest = []" and d: "dropWhile is_digit rest = rest"
    by (cases rest; auto)+
  from assms(1) have a: "\<And>c. c \<in> set xs \<Longrightarrow> is_digit c"
    by (simp add: list_all_iff)
  show "takeWhile is_digit (xs @ rest) = xs"
    using a t by (simp add: takeWhile_append2)
  show "dropWhile is_digit (xs @ rest) = rest"
    using a d by (simp add: dropWhile_append2)
qed

lemma span_digits_only:
  assumes "list_all is_digit xs"
  shows "takeWhile is_digit xs = xs" and "dropWhile is_digit xs = []"
  using span_digits [OF assms, of "[]"] by simp_all

lemma not_digit: "\<not> is_digit (CHR ''.'')" "\<not> is_digit (CHR ''e'')" "\<not> is_digit (CHR ''-'')" "\<not> is_digit (CHR ''+'')"
  by (simp_all add: is_digit_def)

lemma zero_digit: "is_digit (CHR ''0'')"
  by (simp add: is_digit_def)

lemma zeros_digits: "list_all is_digit (replicate j (CHR ''0''))"
  by (simp add: list_all_iff zero_digit)

lemma take_digits: "list_all is_digit xs \<Longrightarrow> list_all is_digit (take n xs)"
  by (auto simp add: list_all_iff dest: in_set_takeD)

lemma drop_digits: "list_all is_digit xs \<Longrightarrow> list_all is_digit (drop n xs)"
  by (auto simp add: list_all_iff dest: in_set_dropD)

lemma exponent_part_plus: "exponent_part (''e+'' @ decimal a) = Some (int a)"
  by (simp add: exponent_part_def decimal_not_empty decimal_digits digits_value_decimal)

lemma exponent_part_minus: "exponent_part (''e-'' @ decimal a) = Some (- int a)"
  by (simp add: exponent_part_def decimal_not_empty decimal_digits digits_value_decimal)

lemma exponent_part_signed:
  "exponent_part (''e'' @ (if e < 0 then ''-'' else ''+'') @ decimal (nat \<bar>e\<bar>)) = Some e"
  using exponent_part_plus [of "nat \<bar>e\<bar>"] exponent_part_minus [of "nat \<bar>e\<bar>"]
  by (cases "e < 0") simp_all

lemma digits_value_leading_zeros:
  "digits_value (replicate j (CHR ''0'') @ ds) 0 = digits_value ds 0"
  by (simp add: digits_value_append digits_value_zeros)

text \<open>The parts of a text made of digits, a point, digits and an exponent.\<close>

lemma decimal_parts_plain:
  assumes "list_all is_digit ip"
  shows "decimal_parts ip = Some (ip, False, [], 0)"
  unfolding decimal_parts_def Let_def span_digits_only [OF assms]
  by (simp add: exponent_part_def)

lemma decimal_parts_point:
  assumes "list_all is_digit ip" and "list_all is_digit fp"
  shows "decimal_parts (ip @ ''.'' @ fp) = Some (ip, True, fp, 0)"
proof -
  have 1: "takeWhile is_digit (ip @ ''.'' @ fp) = ip"
    and 2: "dropWhile is_digit (ip @ ''.'' @ fp) = ''.'' @ fp"
    using span_digits [OF assms(1), of "''.'' @ fp"] by (simp_all add: not_digit)
  have 5: "tl (''.'' @ fp) = fp" and 6: "hd (''.'' @ fp) = CHR ''.''" and 7: "''.'' @ fp \<noteq> []"
    by simp_all
  show ?thesis
    unfolding decimal_parts_def Let_def 1 2 5 6 span_digits_only [OF assms(2)]
    using 7 by (simp add: exponent_part_def del: append.simps)
qed

lemma decimal_parts_exponent:
  assumes "list_all is_digit ip"
  shows "decimal_parts (ip @ ''e'' @ (if e < 0 then ''-'' else ''+'') @ decimal (nat \<bar>e\<bar>)) = Some (ip, False, [], e)"
proof -
  let ?ex = "''e'' @ (if e < 0 then ''-'' else ''+'') @ decimal (nat \<bar>e\<bar>)"
  have 1: "takeWhile is_digit (ip @ ?ex) = ip" and 2: "dropWhile is_digit (ip @ ?ex) = ?ex"
    using span_digits [OF assms, of ?ex] by (simp_all add: not_digit)
  have 3: "hd ?ex \<noteq> CHR ''.''" by simp
  show ?thesis
    unfolding decimal_parts_def Let_def 1 2
    using 3 exponent_part_signed [of e]
    by (simp del: append.simps)
qed

lemma decimal_parts_point_exponent:
  assumes "list_all is_digit ip" and "list_all is_digit fp"
  shows "decimal_parts (ip @ ''.'' @ fp @ ''e'' @ (if e < 0 then ''-'' else ''+'') @ decimal (nat \<bar>e\<bar>)) =
         Some (ip, True, fp, e)"
proof -
  let ?ex = "''e'' @ (if e < 0 then ''-'' else ''+'') @ decimal (nat \<bar>e\<bar>)"
  have 1: "takeWhile is_digit (ip @ ''.'' @ fp @ ?ex) = ip"
    and 2: "dropWhile is_digit (ip @ ''.'' @ fp @ ?ex) = ''.'' @ fp @ ?ex"
    using span_digits [OF assms(1), of "''.'' @ fp @ ?ex"] by (simp_all add: not_digit)
  have 3: "takeWhile is_digit (fp @ ?ex) = fp" and 4: "dropWhile is_digit (fp @ ?ex) = ?ex"
    using span_digits [OF assms(2), of ?ex] by (simp_all add: not_digit)
  have 5: "tl (''.'' @ fp @ ?ex) = fp @ ?ex" and 6: "hd (''.'' @ fp @ ?ex) = CHR ''.''"
    and 7: "''.'' @ fp @ ?ex \<noteq> []" by simp_all
  show ?thesis
    unfolding decimal_parts_def Let_def 1 2 5 6 3 4
    using 7 exponent_part_signed [of e]
    by (simp del: append.simps)
qed

subsection \<open>The text of a number is a literal of that number\<close>

lemma literal_okI:
  assumes "decimal_parts str = Some (ip, dot, fp, ex)" and "ip \<noteq> []" and "dot \<longrightarrow> fp \<noteq> []"
    and "1 < length ip \<longrightarrow> hd ip \<noteq> CHR ''0''"
    and "strip_zeros (digits_value (ip @ fp) 0) (ex - int (length fp)) = (s, x)"
  shows "literal_ok s x str"
  unfolding literal_ok_def using assms by simp

lemma literal_okE:
  assumes "literal_ok s x str"
  obtains ip dot fp ex where "decimal_parts str = Some (ip, dot, fp, ex)" and "ip \<noteq> []"
    and "dot \<longrightarrow> fp \<noteq> []" and "1 < length ip \<longrightarrow> hd ip \<noteq> CHR ''0''"
    and "strip_zeros (digits_value (ip @ fp) 0) (ex - int (length fp)) = (s, x)"
  using assms unfolding literal_ok_def by (auto split: option.splits)

lemma format_integer:
  assumes "s mod 10 \<noteq> 0" and "0 \<le> x"
  shows "literal_ok s x (decimal s @ replicate (nat x) (CHR ''0''))"
proof (rule literal_okI)
  let ?ip = "decimal s @ replicate (nat x) (CHR ''0'')"
  from assms(1) have pos: "0 < s" by (cases s) simp_all
  show "decimal_parts ?ip = Some (?ip, False, [], 0)"
    by (rule decimal_parts_plain) (simp add: decimal_digits zeros_digits)
  show "?ip \<noteq> []" by (simp add: decimal_not_empty)
  show "False \<longrightarrow> ([]::string) \<noteq> []" by simp
  show "1 < length ?ip \<longrightarrow> hd ?ip \<noteq> CHR ''0''"
    using decimal_leading [OF pos] by (simp add: decimal_not_empty)
  have "digits_value (?ip @ []) 0 = s * 10 ^ nat x"
    by (simp add: digits_value_append digits_value_decimal digits_value_zeros)
  moreover have "strip_zeros (s * 10 ^ nat x) (x - int (nat x)) = (s, x)"
    by (rule strip_zeros_power) (rule assms(1))
  ultimately show "strip_zeros (digits_value (?ip @ []) 0) (0 - int (length ([]::string))) = (s, x)"
    using assms(2) by simp
qed

lemma format_point:
  assumes "s mod 10 \<noteq> 0" and "0 < n" and "n < length (decimal s)"
  shows "literal_ok s (int n - int (length (decimal s))) (take n (decimal s) @ ''.'' @ drop n (decimal s))"
proof (rule literal_okI)
  let ?ds = "decimal s"
  from assms(1) have pos: "0 < s" by (cases s) simp_all
  show "decimal_parts (take n ?ds @ ''.'' @ drop n ?ds) = Some (take n ?ds, True, drop n ?ds, 0)"
    by (rule decimal_parts_point) (simp_all add: take_digits drop_digits decimal_digits)
  show "take n ?ds \<noteq> []" using assms(2) by (simp add: decimal_not_empty)
  show "True \<longrightarrow> drop n ?ds \<noteq> []" using assms(3) by simp
  show "1 < length (take n ?ds) \<longrightarrow> hd (take n ?ds) \<noteq> CHR ''0''"
    using decimal_leading [OF pos] assms(2) by (simp add: hd_take)
  have "strip_zeros s (int n - int (length ?ds)) = (s, int n - int (length ?ds))"
    using assms(1) by (simp add: strip_zeros_unfold(2))
  moreover have "0 - int (length (drop n ?ds)) = int n - int (length ?ds)"
    using assms(3) by simp
  ultimately show "strip_zeros (digits_value (take n ?ds @ drop n ?ds) 0) (0 - int (length (drop n ?ds))) =
      (s, int n - int (length ?ds))"
    by (simp add: digits_value_decimal)
qed

lemma format_small:
  assumes "s mod 10 \<noteq> 0"
  shows "literal_ok s (- int j - int (length (decimal s))) (''0.'' @ replicate j (CHR ''0'') @ decimal s)"
proof (rule literal_okI)
  let ?ds = "decimal s"
  let ?fp = "replicate j (CHR ''0'') @ ?ds"
  have "decimal_parts (''0'' @ ''.'' @ ?fp) = Some (''0'', True, ?fp, 0)"
    by (rule decimal_parts_point) (simp_all add: zero_digit zeros_digits decimal_digits)
  then show "decimal_parts (''0.'' @ ?fp) = Some (''0'', True, ?fp, 0)" by simp
  show "''0'' \<noteq> []" by simp
  show "True \<longrightarrow> ?fp \<noteq> []" by (simp add: decimal_not_empty)
  show "1 < length ''0'' \<longrightarrow> hd ''0'' \<noteq> CHR ''0''" by simp
  have "digits_value (''0'' @ ?fp) 0 = s"
    using digits_value_leading_zeros [of "Suc j" ?ds] by (simp add: digits_value_decimal)
  moreover have "strip_zeros s (- int j - int (length ?ds)) = (s, - int j - int (length ?ds))"
    using assms(1) by (simp add: strip_zeros_unfold(2))
  ultimately show "strip_zeros (digits_value (''0'' @ ?fp) 0) (0 - int (length ?fp)) =
      (s, - int j - int (length ?ds))"
    by simp
qed

lemma format_exponent_one:
  assumes "s mod 10 \<noteq> 0" and "length (decimal s) = 1"
  shows "literal_ok s e (decimal s @ ''e'' @ (if e < 0 then ''-'' else ''+'') @ decimal (nat \<bar>e\<bar>))"
proof (rule literal_okI)
  let ?ds = "decimal s"
  show "decimal_parts (?ds @ ''e'' @ (if e < 0 then ''-'' else ''+'') @ decimal (nat \<bar>e\<bar>)) =
      Some (?ds, False, [], e)"
    by (rule decimal_parts_exponent) (rule decimal_digits)
  show "?ds \<noteq> []" by (rule decimal_not_empty)
  show "False \<longrightarrow> ([]::string) \<noteq> []" by simp
  show "1 < length ?ds \<longrightarrow> hd ?ds \<noteq> CHR ''0''" using assms(2) by simp
  show "strip_zeros (digits_value (?ds @ []) 0) (e - int (length ([]::string))) = (s, e)"
    using assms(1) by (simp add: digits_value_decimal strip_zeros_unfold(2))
qed

lemma format_exponent_more:
  assumes "s mod 10 \<noteq> 0" and "1 < length (decimal s)"
  shows "literal_ok s (e - (int (length (decimal s)) - 1))
           (take 1 (decimal s) @ ''.'' @ drop 1 (decimal s) @ ''e'' @ (if e < 0 then ''-'' else ''+'') @ decimal (nat \<bar>e\<bar>))"
proof (rule literal_okI)
  let ?ds = "decimal s"
  show "decimal_parts (take 1 ?ds @ ''.'' @ drop 1 ?ds @ ''e'' @ (if e < 0 then ''-'' else ''+'') @ decimal (nat \<bar>e\<bar>)) =
      Some (take 1 ?ds, True, drop 1 ?ds, e)"
    by (rule decimal_parts_point_exponent) (simp_all add: take_digits drop_digits decimal_digits)
  show "take 1 ?ds \<noteq> []" by (simp add: decimal_not_empty)
  show "True \<longrightarrow> drop 1 ?ds \<noteq> []" using assms(2) by simp
  show "1 < length (take 1 ?ds) \<longrightarrow> hd (take 1 ?ds) \<noteq> CHR ''0''" by simp
  have "strip_zeros s (e - (int (length ?ds) - 1)) = (s, e - (int (length ?ds) - 1))"
    using assms(1) by (simp add: strip_zeros_unfold(2))
  moreover have "e - int (length (drop 1 ?ds)) = e - (int (length ?ds) - 1)"
    using assms(2) by simp
  ultimately show "strip_zeros (digits_value (take 1 ?ds @ drop 1 ?ds) 0) (e - int (length (drop 1 ?ds))) =
      (s, e - (int (length ?ds) - 1))"
    by (simp add: digits_value_decimal)
qed

lemma format_decimal_ok:
  assumes "s mod 10 \<noteq> 0"
  shows "literal_ok s x (format_decimal s x)"
proof -
  let ?ds = "decimal s"
  define n where "n = int (length ?ds) + x"
  have nx: "n - int (length ?ds) = x" by (simp add: n_def)
  have k: "1 \<le> int (length ?ds)"
    using decimal_not_empty [of s] by (cases ?ds) simp_all
  have f: "format_decimal s x = format_digits ?ds n"
    by (simp add: format_decimal_def n_def)
  consider (integer) "int (length ?ds) \<le> n" "n \<le> 21"
    | (point) "n < int (length ?ds)" "0 < n" "n \<le> 21"
    | (small) "- 6 < n" "n \<le> 0"
    | (exponent) "21 < n \<or> n \<le> - 6"
    by linarith
  then show ?thesis
  proof cases
    case integer
    then have "format_digits ?ds n = ?ds @ replicate (nat x) (CHR ''0'')"
      by (simp add: format_digits_def nx)
    moreover from integer have "0 \<le> x" using nx by simp
    ultimately show ?thesis unfolding f using format_integer [OF assms, of x] by simp
  next
    case point
    then have "format_digits ?ds n = take (nat n) ?ds @ ''.'' @ drop (nat n) ?ds"
      by (simp add: format_digits_def)
    moreover from point have "0 < nat n" "nat n < length ?ds" by simp_all
    moreover from point have "int (nat n) - int (length ?ds) = x" using nx by simp
    ultimately show ?thesis unfolding f using format_point [OF assms, of "nat n"] by simp
  next
    case small
    with k have "format_digits ?ds n = ''0.'' @ replicate (nat (- n)) (CHR ''0'') @ ?ds"
      by (simp add: format_digits_def)
    moreover from small have "- int (nat (- n)) - int (length ?ds) = x" using nx by simp
    ultimately show ?thesis unfolding f using format_small [OF assms, of "nat (- n)"] by simp
  next
    case exponent
    with k have e: "format_digits ?ds n =
        (if length ?ds = 1 then ?ds else take 1 ?ds @ ''.'' @ drop 1 ?ds) @ ''e'' @
        (if n - 1 < 0 then ''-'' else ''+'') @ decimal (nat \<bar>n - 1\<bar>)"
      by (auto simp add: format_digits_def)
    show ?thesis
    proof (cases "length ?ds = 1")
      case True
      then have "n - 1 = x" using nx by simp
      with True show ?thesis unfolding f e using format_exponent_one [OF assms True, of "n - 1"] by simp
    next
      case False
      with k have more: "1 < length ?ds" by linarith
      have "n - 1 - (int (length ?ds) - 1) = x" using nx by simp
      with False show ?thesis unfolding f e using format_exponent_more [OF assms more, of "n - 1"] by simp
    qed
  qed
qed

lemma digits_number_chars: "list_all is_digit ds \<Longrightarrow> list_all is_number_char ds"
  by (simp add: list_all_iff is_number_char_def)

lemma number_char_simps:
  "is_number_char (CHR ''.'')" "is_number_char (CHR ''e'')" "is_number_char (CHR ''+'')"
  "is_number_char (CHR ''-'')" "is_number_char (CHR ''0'')"
  by (simp_all add: is_number_char_def is_digit_def)

lemma format_digits_chars:
  assumes "list_all is_digit ds"
  shows "list_all is_number_char (format_digits ds n)"
proof -
  have ds: "list_all is_number_char ds"
    using assms by (rule digits_number_chars)
  have t: "list_all is_number_char (take j ds)" and d: "list_all is_number_char (drop j ds)" for j
    using assms by (simp_all add: digits_number_chars take_digits drop_digits)
  have e: "list_all is_number_char (decimal a)" for a
    by (simp add: digits_number_chars decimal_digits)
  have z: "list_all is_number_char (replicate j (CHR ''0''))" for j
    by (simp add: list_all_iff number_char_simps)
  show ?thesis
    unfolding format_digits_def using ds t d e z by (simp add: number_char_simps)
qed

lemma format_decimal_chars: "list_all is_number_char (format_decimal s x)"
  unfolding format_decimal_def by (rule format_digits_chars) (rule decimal_digits)

lemma number_char_not_white: "is_number_char c \<Longrightarrow> \<not> is_white c"
  by (auto simp add: is_number_char_def is_digit_def is_white_def)

lemma trim_id:
  assumes "str \<noteq> []" and "\<not> is_white (hd str)" and "\<not> is_white (last str)"
  shows "trim str = str"
proof -
  from assms(1,2) have "dropWhile is_white str = str" by (cases str) simp_all
  moreover from assms(1,3) have "dropWhile is_white (rev str) = rev str"
    by (cases "rev str") (simp_all add: hd_rev [symmetric] del: rev_is_Nil_conv)
  ultimately show ?thesis by (simp add: trim_def)
qed

lemma trim_number_chars:
  assumes "str \<noteq> []" and "list_all is_number_char str"
  shows "trim str = str"
proof (rule trim_id [OF assms(1)])
  from assms have "hd str \<in> set str" and "last str \<in> set str" by simp_all
  with assms(2) show "\<not> is_white (hd str)" and "\<not> is_white (last str)"
    by (simp_all add: list_all_iff number_char_not_white)
qed

lemma decimal_parts_ip:
  assumes "decimal_parts str = Some (ip, dot, fp, ex)"
  shows "ip = takeWhile is_digit str"
  using assms by (simp add: decimal_parts_def Let_def split: option.splits)

lemma literal_ok_first:
  assumes "literal_ok s x str"
  shows "str \<noteq> []" and "is_digit (hd str)"
proof -
  from assms obtain ip dot fp ex where p: "decimal_parts str = Some (ip, dot, fp, ex)" and ip: "ip \<noteq> []"
    by (auto elim: literal_okE)
  from p have "ip = takeWhile is_digit str" by (rule decimal_parts_ip)
  with ip show "str \<noteq> []" and "is_digit (hd str)"
    by (cases str; simp split: if_splits)+
qed

lemma literal_ok_unsigned:
  assumes "literal_ok s x str"
  shows "unsigned_decimal str = Some (round_decimal s x)"
proof -
  from assms obtain ip dot fp ex where p: "decimal_parts str = Some (ip, dot, fp, ex)" and ip: "ip \<noteq> []"
    and v: "strip_zeros (digits_value (ip @ fp) 0) (ex - int (length fp)) = (s, x)"
    by (auto elim: literal_okE)
  have "\<not> is_digit (CHR ''I'')" by (simp add: is_digit_def)
  with literal_ok_first(2) [OF assms] have "str \<noteq> ''Infinity''" by auto
  with p ip v show ?thesis
    by (simp add: unsigned_decimal_def literal_value_def)
qed

lemma no_radix_prefix:
  assumes "list_all is_number_char str"
  shows "take 2 str \<noteq> ''0x''" "take 2 str \<noteq> ''0X''" "take 2 str \<noteq> ''0o''" "take 2 str \<noteq> ''0O''"
    "take 2 str \<noteq> ''0b''" "take 2 str \<noteq> ''0B''"
proof -
  have n: "\<not> is_number_char (CHR ''x'')" "\<not> is_number_char (CHR ''X'')" "\<not> is_number_char (CHR ''o'')"
    "\<not> is_number_char (CHR ''O'')" "\<not> is_number_char (CHR ''b'')" "\<not> is_number_char (CHR ''B'')"
    by (simp_all add: is_number_char_def is_digit_def)
  have "list_all is_number_char (take 2 str)"
    using assms by (auto simp add: list_all_iff dest: in_set_takeD)
  with n show "take 2 str \<noteq> ''0x''" "take 2 str \<noteq> ''0X''" "take 2 str \<noteq> ''0o''" "take 2 str \<noteq> ''0O''"
    "take 2 str \<noteq> ''0b''" "take 2 str \<noteq> ''0B''"
    by auto
qed

lemma StringToNumber_literal:
  assumes "literal_ok s x str" and "list_all is_number_char str"
  shows "ref_StringToNumber str = round_decimal s x"
    and "ref_StringToNumber (CHR ''-'' # str) = negate (round_decimal s x)"
proof -
  note first = literal_ok_first [OF assms(1)]
  have t: "trim str = str"
    using first(1) assms(2) by (rule trim_number_chars)
  have sign: "hd str \<noteq> CHR ''-''" "hd str \<noteq> CHR ''+''"
    using first(2) by (auto simp add: is_digit_def)
  show "ref_StringToNumber str = round_decimal s x"
    unfolding ref_StringToNumber_def Let_def t
    using first(1) no_radix_prefix [OF assms(2)] sign literal_ok_unsigned [OF assms(1)]
    by simp
  have m: "list_all is_number_char (CHR ''-'' # str)"
    using assms(2) by (simp add: number_char_simps)
  have tm: "trim (CHR ''-'' # str) = CHR ''-'' # str"
    using m by (intro trim_number_chars) simp_all
  show "ref_StringToNumber (CHR ''-'' # str) = negate (round_decimal s x)"
    unfolding ref_StringToNumber_def Let_def tm
    using no_radix_prefix [OF m] literal_ok_unsigned [OF assms(1)]
    by simp
qed

subsection \<open>Numbers\<close>

lemma exact_decimal_canonical:
  assumes "exact_decimal n = (s, x)"
  shows "s = 0 \<or> s mod 10 \<noteq> 0"
  using assms by (cases n) (auto dest: strip_zeros_canonical)

lemma shortest_from_reads_back:
  assumes "case exact_decimal m of (s, x) \<Rightarrow> round_decimal s x = m"
    and "shortest_from m n0 k fuel = (s, x)"
  shows "round_decimal s x = m \<and> (s = 0 \<or> s mod 10 \<noteq> 0)"
  using assms(2)
proof (induction fuel arbitrary: k)
  case 0
  then have e: "exact_decimal m = (s, x)" by simp
  with assms(1) have "round_decimal s x = m" by simp
  with exact_decimal_canonical [OF e] show ?case by blast
next
  case (Suc fuel)
  let ?cs = "filter (reads_back m (n0 - int k)) (case fraction_of m of (p, q) \<Rightarrow> candidates p q (n0 - int k))"
  show ?case
  proof (cases ?cs)
    case Nil
    with Suc.prems have "shortest_from m n0 (Suc k) fuel = (s, x)" by simp
    then show ?thesis by (rule Suc.IH)
  next
    case (Cons c cs)
    with Suc.prems have st: "strip_zeros c (n0 - int k) = (s, x)" by simp
    from Cons have "c \<in> set ?cs" by simp
    then have "reads_back m (n0 - int k) c" by simp
    with st have "round_decimal s x = m" by (simp add: reads_back_def)
    with strip_zeros_canonical [OF st] show ?thesis by blast
  qed
qed

lemma round_decimal_zero: "round_decimal 0 x = Finite 0"
  by (simp add: round_decimal_def)

lemma shortest_reads_back:
  assumes "case exact_decimal m of (s, x) \<Rightarrow> round_decimal s x = m" and "m \<noteq> Finite 0"
    and "shortest m = (s, x)"
  shows "round_decimal s x = m" and "s mod 10 \<noteq> 0"
proof -
  from assms(3) obtain n0 where "shortest_from m n0 1 17 = (s, x)"
    by (auto simp add: shortest_def split: prod.splits)
  with assms(1) have r: "round_decimal s x = m \<and> (s = 0 \<or> s mod 10 \<noteq> 0)"
    by (rule shortest_from_reads_back)
  then show "round_decimal s x = m" by simp
  from r assms(2) have "s \<noteq> 0" using round_decimal_zero by auto
  with r show "s mod 10 \<noteq> 0" by simp
qed

lemma StringToNumber_format:
  assumes "case exact_decimal m of (s, x) \<Rightarrow> round_decimal s x = m" and "m \<noteq> Finite 0"
  shows "ref_StringToNumber (case shortest m of (s, x) \<Rightarrow> format_decimal s x) = m"
    and "ref_StringToNumber (CHR ''-'' # (case shortest m of (s, x) \<Rightarrow> format_decimal s x)) = negate m"
proof -
  obtain s x where sh: "shortest m = (s, x)" by (cases "shortest m")
  note r = shortest_reads_back [OF assms sh]
  have ok: "literal_ok s x (format_decimal s x)"
    using r(2) by (rule format_decimal_ok)
  show "ref_StringToNumber (case shortest m of (s, x) \<Rightarrow> format_decimal s x) = m"
    using StringToNumber_literal(1) [OF ok format_decimal_chars] r(1) by (simp add: sh)
  show "ref_StringToNumber (CHR ''-'' # (case shortest m of (s, x) \<Rightarrow> format_decimal s x)) = negate m"
    using StringToNumber_literal(2) [OF ok format_decimal_chars] r(1) by (simp add: sh)
qed

lemma StringToNumber_zero: "ref_StringToNumber ''0'' = Finite 0"
  by (simp add: ref_StringToNumber_def trim_def is_white_def unsigned_decimal_def decimal_parts_def
      is_digit_def exponent_part_def literal_value_def strip_zeros_unfold(2) round_decimal_def)

lemma StringToNumber_NaN: "ref_StringToNumber ''NaN'' = NaN"
  by (simp add: ref_StringToNumber_def trim_def is_white_def unsigned_decimal_def decimal_parts_def
      is_digit_def exponent_part_def)

lemma StringToNumber_Infinity:
  "ref_StringToNumber ''Infinity'' = PosInfinity" "ref_StringToNumber ''-Infinity'' = NegInfinity"
  by (simp_all add: ref_StringToNumber_def trim_def is_white_def unsigned_decimal_def)

lemma number_reads_back:
  assumes "is_number n" and "n \<noteq> NegativeZero"
  shows "ref_StringToNumber (ref_Number_toString n) = n"
proof (cases n)
  case (Finite i)
  show ?thesis
  proof (cases "i = 0")
    case True
    with Finite show ?thesis by (simp add: StringToNumber_zero)
  next
    case False
    let ?m = "Finite \<bar>i\<bar>"
    have e: "case exact_decimal ?m of (s, x) \<Rightarrow> round_decimal s x = ?m"
      using assms(1) Finite by simp
    have z: "?m \<noteq> Finite 0" using False by simp
    show ?thesis
    proof (cases "i < 0")
      case True
      then have "negate ?m = Finite i" by simp
      with True False Finite StringToNumber_format(2) [OF e z] show ?thesis by simp
    next
      case False
      then have "?m = Finite i" by simp
      with False \<open>i \<noteq> 0\<close> Finite StringToNumber_format(1) [OF e z] show ?thesis by simp
    qed
  qed
next
  case (Fractional i k)
  let ?m = "Fractional \<bar>i\<bar> k"
  have e: "case exact_decimal ?m of (s, x) \<Rightarrow> round_decimal s x = ?m"
    using assms(1) Fractional by simp
  have z: "?m \<noteq> Finite 0" by simp
  show ?thesis
  proof (cases "i < 0")
    case True
    then have "negate ?m = Fractional i k" by simp
    with True Fractional StringToNumber_format(2) [OF e z] show ?thesis by simp
  next
    case False
    then have "?m = Fractional i k" by simp
    with False Fractional StringToNumber_format(1) [OF e z] show ?thesis by simp
  qed
next
  case NegativeZero
  with assms(2) show ?thesis by simp
next
  case NaN
  then show ?thesis by (simp add: StringToNumber_NaN)
next
  case PosInfinity
  then show ?thesis by (simp add: StringToNumber_Infinity)
next
  case NegInfinity
  then show ?thesis by (simp add: StringToNumber_Infinity)
qed

lemma span_number_chars:
  assumes "list_all is_number_char xs" and "rest = [] \<or> \<not> is_number_char (hd rest)"
  shows "takeWhile is_number_char (xs @ rest) = xs" and "dropWhile is_number_char (xs @ rest) = rest"
proof -
  from assms(2) have t: "takeWhile is_number_char rest = []" and d: "dropWhile is_number_char rest = rest"
    by (cases rest; auto)+
  from assms(1) have a: "\<And>c. c \<in> set xs \<Longrightarrow> is_number_char c"
    by (simp add: list_all_iff)
  show "takeWhile is_number_char (xs @ rest) = xs"
    using a t by (simp add: takeWhile_append2)
  show "dropWhile is_number_char (xs @ rest) = rest"
    using a d by (simp add: dropWhile_append2)
qed

lemma literal_ok_zero: "literal_ok 0 0 ''0''"
proof (rule literal_okI)
  show "decimal_parts ''0'' = Some (''0'', False, [], 0)"
    by (rule decimal_parts_plain) (simp add: zero_digit)
qed (simp_all add: strip_zeros_unfold(2))

lemma read_number_literal:
  assumes "literal_ok s x body" and "list_all is_number_char body"
    and "rest = [] \<or> \<not> is_number_char (hd rest)"
  shows "read_number (body @ rest) = Some (JNumber (round_decimal s x), rest)"
    and "read_number (CHR ''-'' # body @ rest) = Some (JNumber (negate (round_decimal s x)), rest)"
proof -
  from assms(1) obtain ip dot fp ex where p: "decimal_parts body = Some (ip, dot, fp, ex)"
    and c: "ip \<noteq> []" "dot \<longrightarrow> fp \<noteq> []" "1 < length ip \<longrightarrow> hd ip \<noteq> CHR ''0''"
    and v: "strip_zeros (digits_value (ip @ fp) 0) (ex - int (length fp)) = (s, x)"
    by (auto elim: literal_okE)
  have l: "literal_value (ip, dot, fp, ex) = round_decimal s x"
    using v by (simp add: literal_value_def)
  note first = literal_ok_first [OF assms(1)]
  have sign: "hd body \<noteq> CHR ''-''"
    using first(2) by (auto simp add: is_digit_def)
  have t: "takeWhile is_number_char (body @ rest) = body"
    and d: "dropWhile is_number_char (body @ rest) = rest"
    using span_number_chars [OF assms(2,3)] by simp_all
  show "read_number (body @ rest) = Some (JNumber (round_decimal s x), rest)"
    unfolding read_number_def Let_def t d
    using first(1) sign p c l by simp
  have m: "list_all is_number_char (CHR ''-'' # body)"
    using assms(2) by (simp add: number_char_simps)
  have tm: "takeWhile is_number_char ((CHR ''-'' # body) @ rest) = CHR ''-'' # body"
    and dm: "dropWhile is_number_char ((CHR ''-'' # body) @ rest) = rest"
    using span_number_chars [OF m assms(3)] by simp_all
  have "read_number ((CHR ''-'' # body) @ rest) = Some (JNumber (negate (round_decimal s x)), rest)"
    unfolding read_number_def Let_def tm dm
    using p c l by simp
  then show "read_number (CHR ''-'' # body @ rest) = Some (JNumber (negate (round_decimal s x)), rest)"
    by simp
qed

text \<open>The text of a finite number other than \<open>-0\<close>: a literal, after a minus sign if it is negative.\<close>

lemma toString_shape:
  assumes "is_number n" and "finite_number n" and "n \<noteq> NegativeZero"
  obtains s x body where "literal_ok s x body" and "list_all is_number_char body"
    and "ref_Number_toString n = body \<and> round_decimal s x = n \<or>
         ref_Number_toString n = CHR ''-'' # body \<and> negate (round_decimal s x) = n"
proof -
  have shape: "\<exists>s x body. literal_ok s x body \<and> list_all is_number_char body \<and>
      ((if negative n then ''-'' else []) @ (case shortest m of (s, x) \<Rightarrow> format_decimal s x) = body \<and>
         round_decimal s x = n \<or>
       (if negative n then ''-'' else []) @ (case shortest m of (s, x) \<Rightarrow> format_decimal s x) = CHR ''-'' # body \<and>
         negate (round_decimal s x) = n)"
    if e: "case exact_decimal m of (s, x) \<Rightarrow> round_decimal s x = m" and z: "m \<noteq> Finite 0"
      and sign: "if negative n then negate m = n else m = n" for m
  proof -
    obtain s x where sh: "shortest m = (s, x)" by (cases "shortest m")
    note r = shortest_reads_back [OF e z sh]
    have ok: "literal_ok s x (format_decimal s x)"
      using r(2) by (rule format_decimal_ok)
    show ?thesis
      using ok format_decimal_chars [of s x] r(1) sign
      by (intro exI [of _ s] exI [of _ x] exI [of _ "format_decimal s x"]) (simp add: sh)
  qed
  show ?thesis
  proof (cases n)
    case (Finite i)
    show ?thesis
    proof (cases "i = 0")
      case True
      have "round_decimal 0 0 = Finite 0" by (rule round_decimal_zero)
      with True Finite show ?thesis
        using that [OF literal_ok_zero] by (simp add: number_char_simps)
    next
      case False
      have "\<exists>s x body. literal_ok s x body \<and> list_all is_number_char body \<and>
        ((if negative n then ''-'' else []) @ (case shortest (Finite \<bar>i\<bar>) of (s, x) \<Rightarrow> format_decimal s x) = body \<and>
           round_decimal s x = n \<or>
         (if negative n then ''-'' else []) @ (case shortest (Finite \<bar>i\<bar>) of (s, x) \<Rightarrow> format_decimal s x) = CHR ''-'' # body \<and>
           negate (round_decimal s x) = n)"
        using assms(1) Finite False by (intro shape) auto
      moreover have "ref_Number_toString n =
          (if negative n then ''-'' else []) @ (case shortest (Finite \<bar>i\<bar>) of (s, x) \<Rightarrow> format_decimal s x)"
        using Finite False by simp
      ultimately show ?thesis using that by metis
    qed
  next
    case (Fractional i k)
    have "\<exists>s x body. literal_ok s x body \<and> list_all is_number_char body \<and>
      ((if negative n then ''-'' else []) @ (case shortest (Fractional \<bar>i\<bar> k) of (s, x) \<Rightarrow> format_decimal s x) = body \<and>
         round_decimal s x = n \<or>
       (if negative n then ''-'' else []) @ (case shortest (Fractional \<bar>i\<bar> k) of (s, x) \<Rightarrow> format_decimal s x) = CHR ''-'' # body \<and>
         negate (round_decimal s x) = n)"
      using assms(1) Fractional by (intro shape) auto
    moreover have "ref_Number_toString n =
        (if negative n then ''-'' else []) @ (case shortest (Fractional \<bar>i\<bar> k) of (s, x) \<Rightarrow> format_decimal s x)"
      using Fractional by simp
    ultimately show ?thesis using that by metis
  qed (use assms in simp_all)
qed

lemma read_number_toString:
  assumes "is_number n" and "finite_number n" and "n \<noteq> NegativeZero"
    and "rest = [] \<or> \<not> is_number_char (hd rest)"
  shows "read_number (ref_Number_toString n @ rest) = Some (JNumber n, rest)"
proof -
  obtain s x body where ok: "literal_ok s x body" and chars: "list_all is_number_char body"
    and eq: "ref_Number_toString n = body \<and> round_decimal s x = n \<or>
         ref_Number_toString n = CHR ''-'' # body \<and> negate (round_decimal s x) = n"
    using assms(1-3) by (rule toString_shape)
  from eq show ?thesis
    using read_number_literal [OF ok chars assms(4)] by auto
qed

subsection \<open>String literals\<close>

lemma hex_value_digit_char:
  assumes "n < 16"
  shows "hex_value (digit_char n) = Some n"
  using below_16 [OF assms] by (auto simp add: hex_value_def digit_char_def)

lemma of_char_div_16: "(of_char c :: nat) div 16 < 16"
proof -
  have "(of_char c :: nat) mod 256 < 256" by (rule mod_less_divisor) simp
  then have "(of_char c :: nat) < 16 * 16" by (simp only: of_char_mod_256)
  then show ?thesis by (rule less_mult_imp_div_less)
qed

lemma read_string_closing: "read_string (CHR 0x22 # rest) acc = Some (rev acc, rest)"
  by (cases rest) simp_all

lemma read_string_escape:
  assumes "unescape e = Some ch" and "e \<noteq> CHR ''u''"
  shows "read_string (CHR 0x5C # e # c # cs) acc = read_string (c # cs) (ch # acc)"
  using assms by simp

lemma read_string_plain:
  assumes "c \<noteq> CHR 0x22" and "c \<noteq> CHR 0x5C" and "\<not> c < CHR 0x20"
  shows "read_string (c # e # cs) acc = read_string (e # cs) (c # acc)"
  using assms by simp

lemma read_string_hex:
  assumes "a < 16" and "b < 16"
  shows "read_string (CHR 0x5C # CHR ''u'' # CHR ''0'' # CHR ''0'' # digit_char a # digit_char b # cs) acc =
         read_string cs (char_of (16 * a + b) # acc)"
proof -
  have z: "hex_value (CHR ''0'') = Some 0" by (simp add: hex_value_def)
  show ?thesis
    by (simp add: z hex_value_digit_char [OF assms(1)] hex_value_digit_char [OF assms(2)])
qed

lemma read_string_quote_char:
  "read_string (quote_char c @ e # cs) acc = read_string (e # cs) (c # acc)"
proof -
  consider (quote) "c = CHR 0x22" | (backslash) "c = CHR 0x5C" | (b) "c = CHR 0x08" | (t) "c = CHR 0x09"
    | (n) "c = CHR 0x0A" | (f) "c = CHR 0x0C" | (r) "c = CHR 0x0D"
    | (control) "c \<noteq> CHR 0x22" "c \<noteq> CHR 0x5C" "c \<noteq> CHR 0x08" "c \<noteq> CHR 0x09" "c \<noteq> CHR 0x0A"
        "c \<noteq> CHR 0x0C" "c \<noteq> CHR 0x0D" "c < CHR 0x20"
    | (plain) "c \<noteq> CHR 0x22" "c \<noteq> CHR 0x5C" "c \<noteq> CHR 0x08" "c \<noteq> CHR 0x09" "c \<noteq> CHR 0x0A"
        "c \<noteq> CHR 0x0C" "c \<noteq> CHR 0x0D" "\<not> c < CHR 0x20"
    by blast
  then show ?thesis
  proof cases
    case quote
    then show ?thesis by (simp add: quote_char_def unescape_def)
  next
    case backslash
    then show ?thesis by (simp add: quote_char_def unescape_def)
  next
    case b
    then show ?thesis by (simp add: quote_char_def unescape_def)
  next
    case t
    then show ?thesis by (simp add: quote_char_def unescape_def)
  next
    case n
    then show ?thesis by (simp add: quote_char_def unescape_def)
  next
    case f
    then show ?thesis by (simp add: quote_char_def unescape_def)
  next
    case r
    then show ?thesis by (simp add: quote_char_def unescape_def)
  next
    case control
    have q: "quote_char c = [CHR 0x5C, CHR ''u'', CHR ''0'', CHR ''0'',
        digit_char (of_char c div 16), digit_char (of_char c mod 16)]"
      using control by (simp add: quote_char_def)
    have "char_of (16 * (of_char c div 16) + of_char c mod 16 :: nat) = c"
      by simp
    then show ?thesis
      unfolding q using read_string_hex [of "of_char c div 16" "of_char c mod 16" "e # cs" acc]
      by (simp del: read_string.simps add: of_char_div_16)
  next
    case plain
    then have q: "quote_char c = [c]" by (simp add: quote_char_def)
    show ?thesis unfolding q using plain by simp
  qed
qed

lemma read_string_quoted:
  "read_string (concat (map quote_char s) @ CHR 0x22 # rest) acc = Some (rev acc @ s, rest)"
proof (induction s arbitrary: acc)
  case Nil
  show ?case by (simp only: list.map concat.simps append_Nil read_string_closing append_Nil2)
next
  case (Cons c s)
  obtain e cs where t: "concat (map quote_char s) @ CHR 0x22 # rest = e # cs"
    by (cases "concat (map quote_char s) @ CHR 0x22 # rest") simp_all
  have "read_string (concat (map quote_char (c # s)) @ CHR 0x22 # rest) acc =
        read_string (quote_char c @ e # cs) acc"
    by (simp del: read_string.simps add: t)
  also have "\<dots> = read_string (e # cs) (c # acc)"
    by (rule read_string_quote_char)
  also have "\<dots> = Some (rev (c # acc) @ s, rest)"
    unfolding t [symmetric] by (rule Cons.IH)
  finally show ?case by simp
qed

lemma read_string_quote:
  "\<exists>r. quote s @ rest = CHR 0x22 # r \<and> read_string r [] = Some (s, rest)"
  using read_string_quoted [of s rest "[]"] by (simp del: read_string.simps add: quote_def)



subsection \<open>JSON texts\<close>

lemma skip_space_Cons: "\<not> is_space c \<Longrightarrow> skip_space (c # r) = c # r"
  by (simp add: skip_space_def)

lemma format_digits_first:
  assumes "ds \<noteq> []" and "list_all is_digit ds"
  obtains c r where "format_digits ds n = c # r" and "is_digit c"
proof -
  from assms obtain d ds' where ds: "ds = d # ds'" and d: "is_digit d" by (cases ds) simp_all
  have "\<exists>r. format_digits ds n = d # r \<or> format_digits ds n = CHR ''0'' # r"
    unfolding format_digits_def ds
    by (cases "nat n") (auto simp add: take_Cons')
  with d zero_digit show ?thesis using that by blast
qed

lemma toString_first:
  assumes "finite_number n"
  obtains c r where "ref_Number_toString n = c # r" and "c = CHR ''-'' \<or> is_digit c"
proof -
  have f: "\<exists>c r. (if b then ''-'' else []) @ (case shortest m of (s, x) \<Rightarrow> format_decimal s x) = c # r \<and>
      (c = CHR ''-'' \<or> is_digit c)" for b m
  proof -
    obtain s x where sh: "shortest m = (s, x)" by (cases "shortest m")
    obtain c r where "format_decimal s x = c # r" and "is_digit c"
      unfolding format_decimal_def
      by (rule format_digits_first [OF decimal_not_empty decimal_digits])
    then show ?thesis by (cases b) (simp_all add: sh)
  qed
  have z: "\<exists>c r. ''0'' = c # r \<and> (c = CHR ''-'' \<or> is_digit c)"
    by (simp add: zero_digit)
  show ?thesis
  proof (cases n)
    case (Finite i)
    then show ?thesis using that f [of "negative n" "magnitude n"] z by (cases "i = 0") auto
  next
    case (Fractional i k)
    then show ?thesis using that f [of "negative n" "magnitude n"] by auto
  next
    case NegativeZero
    then show ?thesis using that z by auto
  qed (use assms in simp_all)
qed

lemma sign_or_digit:
  assumes "c = CHR ''-'' \<or> is_digit c"
  shows "\<not> is_space c" "c \<noteq> CHR 0x22" "c \<noteq> CHR ''[''" "c \<noteq> CHR '']''" "c \<noteq> CHR ''{''" "c \<noteq> CHR ''}''"
    "c \<noteq> CHR ''n''" "c \<noteq> CHR ''t''" "c \<noteq> CHR ''f''"
  using assms by (auto simp add: is_space_def is_digit_def)

lemma read_value_number:
  assumes "c = CHR ''-'' \<or> is_digit c"
  shows "read_value (Suc n) (c # r) = read_number (c # r)"
  using sign_or_digit [OF assms] by (simp add: skip_space_Cons)

lemma read_value_string:
  assumes "read_string r [] = Some (s, rest)"
  shows "read_value (Suc n) (CHR 0x22 # r) = Some (JString s, rest)"
  using assms by (simp add: skip_space_Cons is_space_def)

lemma read_value_empty_array: "read_value (Suc n) (''[]'' @ rest) = Some (JArray [], rest)"
  by (simp add: skip_space_Cons is_space_def)

lemma read_value_empty_object: "read_value (Suc n) (''{}'' @ rest) = Some (JObject [], rest)"
  by (simp add: skip_space_Cons is_space_def)

lemma read_value_array:
  assumes "\<not> is_space c" and "c \<noteq> CHR '']''" and "read_elements n (c # r) = Some (xs, rest)"
  shows "read_value (Suc n) (CHR ''['' # c # r) = Some (JArray xs, rest)"
  using assms by (simp add: skip_space_Cons is_space_def)

lemma read_value_object:
  assumes "\<not> is_space c" and "c \<noteq> CHR ''}''" and "read_members n (c # r) = Some (ms, rest)"
  shows "read_value (Suc n) (CHR ''{'' # c # r) = Some (JObject (object_of ms), rest)"
  using assms by (simp add: skip_space_Cons is_space_def)

lemma read_elements_last:
  assumes "read_value n s = Some (x, CHR '']'' # rest)"
  shows "read_elements (Suc n) s = Some ([x], rest)"
  using assms by (simp add: skip_space_Cons is_space_def)

lemma read_elements_more:
  assumes "read_value n s = Some (x, CHR '','' # r)" and "read_elements n r = Some (xs, rest)"
  shows "read_elements (Suc n) s = Some (x # xs, rest)"
  using assms by (simp add: skip_space_Cons is_space_def)

lemma read_members_last:
  assumes "read_string r [] = Some (k, CHR '':'' # r')" and "read_value n r' = Some (x, CHR ''}'' # rest)"
  shows "read_members (Suc n) (CHR 0x22 # r) = Some ([(k, x)], rest)"
  using assms by (simp add: skip_space_Cons is_space_def)

lemma read_members_more:
  assumes "read_string r [] = Some (k, CHR '':'' # r')" and "read_value n r' = Some (x, CHR '','' # r'')"
    and "read_members n r'' = Some (ms, rest)"
  shows "read_members (Suc n) (CHR 0x22 # r) = Some ((k, x) # ms, rest)"
  using assms by (simp add: skip_space_Cons is_space_def)


lemma stringify_first:
  obtains c r where "ref_stringify j = c # r" and "\<not> is_space c" and "c \<noteq> CHR '']''" and "c \<noteq> CHR ''}''"
proof (cases j)
  case JNull
  then have "ref_stringify j = CHR ''n'' # ''ull''" by simp
  then show ?thesis using that by (simp add: is_space_def)
next
  case (JBool b)
  then have "ref_stringify j = (if b then CHR ''t'' # ''rue'' else CHR ''f'' # ''alse'')"
    by (simp add: String_boolean_def)
  then show ?thesis using that [of "if b then CHR ''t'' else CHR ''f''" "if b then ''rue'' else ''alse''"]
    by (simp add: is_space_def split: if_splits)
next
  case (JNumber x)
  show ?thesis
  proof (cases "finite_number x")
    case True
    then obtain c r where n: "ref_Number_toString x = c # r" and c: "c = CHR ''-'' \<or> is_digit c"
      by (rule toString_first)
    from JNumber True n have "ref_stringify j = c # r" by simp
    then show ?thesis using that sign_or_digit [OF c] by blast
  next
    case False
    with JNumber have "ref_stringify j = CHR ''n'' # ''ull''" by simp
    then show ?thesis using that by (simp add: is_space_def)
  qed
next
  case (JString s)
  then have "ref_stringify j = CHR 0x22 # concat (map quote_char s) @ [CHR 0x22]"
    by (simp add: quote_def)
  then show ?thesis using that by (simp add: is_space_def)
next
  case (JArray xs)
  then have "ref_stringify j = CHR ''['' # join '','' (ref_elements xs) @ '']''" by simp
  then show ?thesis using that by (simp add: is_space_def)
next
  case (JObject ms)
  then have "ref_stringify j = CHR ''{'' # join '','' (ref_members ms) @ ''}''" by simp
  then show ?thesis using that by (simp add: is_space_def)
qed

lemma js_elements_set: "js_elements xs \<Longrightarrow> x \<in> set xs \<Longrightarrow> js_json x"
  by (induction xs) auto

lemma js_members_set: "js_members ms \<Longrightarrow> (k, v) \<in> set ms \<Longrightarrow> js_json v"
  by (induction ms) auto

lemma plain_elements_set: "plain_elements xs \<Longrightarrow> x \<in> set xs \<Longrightarrow> plain_json x"
  by (induction xs) auto

lemma plain_members_set: "plain_members ms \<Longrightarrow> (k, v) \<in> set ms \<Longrightarrow> plain_json v"
  by (induction ms) auto

lemma join_more: "ys \<noteq> [] \<Longrightarrow> join sep (x # ys) = x @ sep @ join sep ys"
  by (cases ys) simp_all

lemma ref_elements_empty: "ref_elements xs = [] \<longleftrightarrow> xs = []"
  by (cases xs) simp_all

lemma ref_members_empty: "ref_members ms = [] \<longleftrightarrow> ms = []"
  by (cases ms) auto

lemma join_first:
  assumes "xs \<noteq> []"
  obtains c r where "join '','' (ref_elements xs) = c # r" and "\<not> is_space c" and "c \<noteq> CHR '']''"
proof -
  from assms obtain x xs' where xs: "xs = x # xs'" by (cases xs) auto
  obtain c r where s: "ref_stringify x = c # r" and c: "\<not> is_space c" "c \<noteq> CHR '']''"
    by (rule stringify_first)
  have "join '','' (ref_elements xs) = c # (r @ (if xs' = [] then [] else '','' @ join '','' (ref_elements xs')))"
    unfolding xs using s by (simp add: join_more ref_elements_empty)
  with c show ?thesis using that by blast
qed

lemma join_members_first:
  assumes "ms \<noteq> []"
  obtains r where "join '','' (ref_members ms) = CHR 0x22 # r"
proof -
  from assms obtain k v ms' where ms: "ms = (k, v) # ms'" by (cases ms) auto
  have "join '','' (ref_members ms) =
      CHR 0x22 # (concat (map quote_char k) @ [CHR 0x22] @ '':'' @ ref_stringify v @
        (if ms' = [] then [] else '','' @ join '','' (ref_members ms')))"
    unfolding ms by (simp add: join_more ref_members_empty quote_def)
  then show ?thesis using that by blast
qed

lemma read_elements_join:
  assumes "\<And>x n rest. x \<in> set xs \<Longrightarrow> length (ref_stringify x) < n \<Longrightarrow>
             rest = [] \<or> \<not> is_number_char (hd rest) \<Longrightarrow>
             read_value n (ref_stringify x @ rest) = Some (x, rest)"
    and "xs \<noteq> []"
    and "Suc (length (join '','' (ref_elements xs))) < n"
  shows "read_elements n (join '','' (ref_elements xs) @ CHR '']'' # rest) = Some (xs, rest)"
  using assms
proof (induction xs arbitrary: n)
  case Nil
  then show ?case by simp
next
  case (Cons x xs)
  from Cons.prems(3) obtain m where n: "n = Suc m" by (cases n) auto
  have comma: "\<not> is_number_char (CHR '','')" and bracket: "\<not> is_number_char (CHR '']'')"
    by (simp_all add: is_number_char_def is_digit_def)
  show ?case
  proof (cases xs)
    case Nil
    from Cons.prems(3) have "length (ref_stringify x) < m" by (simp add: n Nil)
    then have "read_value m (ref_stringify x @ CHR '']'' # rest) = Some (x, CHR '']'' # rest)"
      using Cons.prems(1) [of x m "CHR '']'' # rest"] bracket by simp
    then have "read_elements (Suc m) (ref_stringify x @ CHR '']'' # rest) = Some ([x], rest)"
      by (rule read_elements_last)
    then show ?thesis by (simp add: n Nil)
  next
    case (Cons y ys)
    let ?tail = "join '','' (ref_elements xs) @ CHR '']'' # rest"
    have j: "join '','' (ref_elements (x # xs)) = ref_stringify x @ '','' @ join '','' (ref_elements xs)"
      by (simp add: Cons join_more ref_elements_empty)
    from Cons.prems(3) have lx: "length (ref_stringify x) < m"
      and lxs: "Suc (length (join '','' (ref_elements xs))) < m"
      by (simp_all only: n j length_append) simp_all
    have "read_value m (ref_stringify x @ CHR '','' # ?tail) = Some (x, CHR '','' # ?tail)"
      using Cons.prems(1) [of x m "CHR '','' # ?tail"] lx comma by simp
    moreover have "read_elements m ?tail = Some (xs, rest)"
    proof (rule Cons.IH)
      show "xs \<noteq> []" by (simp add: Cons)
      show "Suc (length (join '','' (ref_elements xs))) < m" by (rule lxs)
      fix x' n' rest'
      assume "x' \<in> set xs"
      then have "x' \<in> set (x # xs)" by simp
      moreover assume "length (ref_stringify x') < n'"
        and "rest' = [] \<or> \<not> is_number_char (hd rest')"
      ultimately show "read_value n' (ref_stringify x' @ rest') = Some (x', rest')"
        by (rule Cons.prems(1))
    qed
    ultimately have "read_elements (Suc m) (ref_stringify x @ CHR '','' # ?tail) = Some (x # xs, rest)"
      by (rule read_elements_more)
    then show ?thesis by (simp only: n j) simp
  qed
qed

lemma read_members_join:
  assumes "\<And>k v n rest. (k, v) \<in> set ms \<Longrightarrow> length (ref_stringify v) < n \<Longrightarrow>
             rest = [] \<or> \<not> is_number_char (hd rest) \<Longrightarrow>
             read_value n (ref_stringify v @ rest) = Some (v, rest)"
    and "ms \<noteq> []"
    and "Suc (length (join '','' (ref_members ms))) < n"
  shows "read_members n (join '','' (ref_members ms) @ CHR ''}'' # rest) = Some (ms, rest)"
  using assms
proof (induction ms arbitrary: n)
  case Nil
  then show ?case by simp
next
  case (Cons p ms)
  obtain k v where p: "p = (k, v)" by (cases p)
  from Cons.prems(3) obtain m where n: "n = Suc m" by (cases n) auto
  have comma: "\<not> is_number_char (CHR '','')" and brace: "\<not> is_number_char (CHR ''}'')"
    by (simp_all add: is_number_char_def is_digit_def)
  have key: "\<And>after. read_string (concat (map quote_char k) @ CHR 0x22 # after) [] = Some (k, after)"
    using read_string_quoted [of k _ "[]"] by simp
  show ?case
  proof (cases ms)
    case Nil
    from Cons.prems(3) have "length (ref_stringify v) < m" by (simp add: n Nil p)
    then have "read_value m (ref_stringify v @ CHR ''}'' # rest) = Some (v, CHR ''}'' # rest)"
      using Cons.prems(1) [of k v m "CHR ''}'' # rest"] brace by (simp add: p)
    with key [of "CHR '':'' # ref_stringify v @ CHR ''}'' # rest"]
    have "read_members (Suc m) (CHR 0x22 # concat (map quote_char k) @ CHR 0x22 # CHR '':'' #
        ref_stringify v @ CHR ''}'' # rest) = Some ([(k, v)], rest)"
      by (rule read_members_last)
    moreover have "join '','' (ref_members ((k, v) # ms)) @ CHR ''}'' # rest =
        CHR 0x22 # concat (map quote_char k) @ CHR 0x22 # CHR '':'' # ref_stringify v @ CHR ''}'' # rest"
      by (simp add: Nil quote_def)
    ultimately show ?thesis by (simp only: n Nil p)
  next
    case (Cons q qs)
    let ?tail = "join '','' (ref_members ms) @ CHR ''}'' # rest"
    have j: "join '','' (ref_members (p # ms)) =
        quote k @ '':'' @ ref_stringify v @ '','' @ join '','' (ref_members ms)"
      by (simp add: Cons p join_more ref_members_empty)
    then have eq: "join '','' (ref_members ((k, v) # ms)) @ CHR ''}'' # rest =
        CHR 0x22 # concat (map quote_char k) @ CHR 0x22 # CHR '':'' # ref_stringify v @ CHR '','' # ?tail"
      by (simp add: p quote_def)
    from Cons.prems(3) have lv: "length (ref_stringify v) < m"
      and lms: "Suc (length (join '','' (ref_members ms))) < m"
      by (simp_all only: n j length_append) simp_all
    have "read_value m (ref_stringify v @ CHR '','' # ?tail) = Some (v, CHR '','' # ?tail)"
      using Cons.prems(1) [of k v m "CHR '','' # ?tail"] lv comma by (simp add: p)
    moreover have "read_members m ?tail = Some (ms, rest)"
    proof (rule Cons.IH)
      show "ms \<noteq> []" by (simp add: Cons)
      show "Suc (length (join '','' (ref_members ms))) < m" by (rule lms)
      fix k' v' n' rest'
      assume "(k', v') \<in> set ms"
      then have "(k', v') \<in> set (p # ms)" by simp
      moreover assume "length (ref_stringify v') < n'"
        and "rest' = [] \<or> \<not> is_number_char (hd rest')"
      ultimately show "read_value n' (ref_stringify v' @ rest') = Some (v', rest')"
        by (rule Cons.prems(1))
    qed
    ultimately have "read_members (Suc m) (CHR 0x22 # concat (map quote_char k) @ CHR 0x22 # CHR '':'' #
        ref_stringify v @ CHR '','' # ?tail) = Some ((k, v) # ms, rest)"
      using key [of "CHR '':'' # ref_stringify v @ CHR '','' # ?tail"]
      by (intro read_members_more)
    then show ?thesis by (simp only: n p eq)
  qed
qed


lemma read_value_stringify:
  assumes "js_json j" and "plain_json j" and "length (ref_stringify j) < n"
    and "rest = [] \<or> \<not> is_number_char (hd rest)"
  shows "read_value n (ref_stringify j @ rest) = Some (j, rest)"
  using assms
proof (induction j arbitrary: n rest)
  case JNull
  then obtain m where "n = Suc m" by (cases n) auto
  then show ?case by (simp add: skip_space_Cons is_space_def)
next
  case (JBool b)
  then obtain m where "n = Suc m" by (cases n) auto
  then show ?case by (cases b) (simp_all add: String_boolean_def skip_space_Cons is_space_def)
next
  case (JNumber x)
  then have x: "is_number x" "finite_number x" "x \<noteq> NegativeZero" by simp_all
  from JNumber obtain m where n: "n = Suc m" by (cases n) auto
  obtain c r where s: "ref_Number_toString x = c # r" and c: "c = CHR ''-'' \<or> is_digit c"
    using x(2) by (rule toString_first)
  have "read_value (Suc m) (c # r @ rest) = read_number (c # r @ rest)"
    using c by (rule read_value_number)
  also have "\<dots> = Some (JNumber x, rest)"
    using read_number_toString [OF x JNumber.prems(4)] by (simp only: s append_Cons)
  finally show ?case using x(2) by (simp only: n ref_stringify.simps s append_Cons if_True)
next
  case (JString s)
  then obtain m where n: "n = Suc m" by (cases n) auto
  obtain r where q: "quote s @ rest = CHR 0x22 # r" and r: "read_string r [] = Some (s, rest)"
    using read_string_quote by blast
  from r have "read_value (Suc m) (CHR 0x22 # r) = Some (JString s, rest)"
    by (rule read_value_string)
  then show ?case by (simp only: n ref_stringify.simps q)
next
  case (JArray xs)
  then obtain m where n: "n = Suc m" by (cases n) auto
  show ?case
  proof (cases "xs = []")
    case True
    then have "ref_stringify (JArray xs) @ rest = ''[]'' @ rest" by simp
    then show ?thesis by (simp only: n read_value_empty_array True)
  next
    case False
    then obtain c r where j: "join '','' (ref_elements xs) = c # r" and c: "\<not> is_space c" "c \<noteq> CHR '']''"
      by (rule join_first)
    have "read_elements m (join '','' (ref_elements xs) @ CHR '']'' # rest) = Some (xs, rest)"
    proof (rule read_elements_join)
      show "xs \<noteq> []" by (rule False)
      show "Suc (length (join '','' (ref_elements xs))) < m"
        using JArray.prems(3) by (simp add: n)
      fix x n' rest'
      assume x: "x \<in> set xs" and "length (ref_stringify x) < n'"
        and "rest' = [] \<or> \<not> is_number_char (hd rest')"
      moreover from x JArray.prems(1,2) have "js_json x" and "plain_json x"
        by (auto intro: js_elements_set plain_elements_set)
      ultimately show "read_value n' (ref_stringify x @ rest') = Some (x, rest')"
        using JArray.IH by blast
    qed
    then have "read_elements m (c # r @ CHR '']'' # rest) = Some (xs, rest)"
      by (simp only: j append_Cons)
    with c have "read_value (Suc m) (CHR ''['' # c # r @ CHR '']'' # rest) = Some (JArray xs, rest)"
      by (rule read_value_array)
    moreover have "ref_stringify (JArray xs) @ rest = CHR ''['' # c # r @ CHR '']'' # rest"
      by (simp add: j)
    ultimately show ?thesis by (simp only: n)
  qed
next
  case (JObject ms)
  then obtain m where n: "n = Suc m" by (cases n) auto
  from JObject.prems(1) have own: "object_of ms = ms" by simp
  show ?case
  proof (cases "ms = []")
    case True
    then have "ref_stringify (JObject ms) @ rest = ''{}'' @ rest" by simp
    then show ?thesis by (simp only: n read_value_empty_object True)
  next
    case False
    then obtain r where j: "join '','' (ref_members ms) = CHR 0x22 # r"
      by (rule join_members_first)
    have "read_members m (join '','' (ref_members ms) @ CHR ''}'' # rest) = Some (ms, rest)"
    proof (rule read_members_join)
      show "ms \<noteq> []" by (rule False)
      show "Suc (length (join '','' (ref_members ms))) < m"
        using JObject.prems(3) by (simp add: n)
      fix k v n' rest'
      assume kv: "(k, v) \<in> set ms" and "length (ref_stringify v) < n'"
        and "rest' = [] \<or> \<not> is_number_char (hd rest')"
      moreover from kv JObject.prems(1,2) have "js_json v" and "plain_json v"
        by (auto intro: js_members_set plain_members_set)
      moreover from kv have "v \<in> Basic_BNFs.snds (k, v)" by simp
      ultimately show "read_value n' (ref_stringify v @ rest') = Some (v, rest')"
        using JObject.IH by blast
    qed
    then have "read_members m (CHR 0x22 # r @ CHR ''}'' # rest) = Some (ms, rest)"
      by (simp only: j append_Cons)
    then have "read_value (Suc m) (CHR ''{'' # CHR 0x22 # r @ CHR ''}'' # rest) = Some (JObject (object_of ms), rest)"
      by (intro read_value_object) (simp_all add: is_space_def)
    moreover have "ref_stringify (JObject ms) @ rest = CHR ''{'' # CHR 0x22 # r @ CHR ''}'' # rest"
      by (simp add: j)
    ultimately show ?thesis by (simp only: n own)
  qed
qed

lemma json_reads_back:
  assumes "js_json j" and "plain_json j"
  shows "ref_parse (ref_stringify j) = Inr j"
proof -
  have "read_value (Suc (length (ref_stringify j))) (ref_stringify j @ []) = Some (j, [])"
    using assms by (intro read_value_stringify) simp_all
  then show ?thesis by (simp add: ref_parse_def skip_space_def)
qed

text \<open>The equations that evaluate \<open>is_number\<close> on a numeral.\<close>

lemmas number_eval =
  is_number.simps exact_decimal.simps strip_zeros.simps round_decimal_def round_fraction_def
  floor_log2_def bit_length.simps nearest_even_def double_of_def dyadic.simps Let_def

section \<open>The codec round trip (claim C2)\<close>

lemma toArrayBuffer_bytes: "view_ok arr \<Longrightarrow> toArrayBuffer arr = bytes_of arr"
  by (auto simp: toArrayBuffer_def ArrayBuffer_slice_def bytes_of_def view_ok_def Let_def min_def)

lemma decode_binary:
  "decodeValue P (stored_row k (encodeValue P (Binary arr)) ver ex) =
     Inr (Value (Binary \<lparr>buffer = toArrayBuffer arr, byteOffset = 0, byteLength = length (toArrayBuffer arr)\<rparr>))"
  by (simp add: decodeValue_def stored_row_def)

lemma decode_string:
  "decodeValue P (stored_row k (encodeValue P (Json (JString s))) ver ex) = Inr (Value (Json (JString s)))"
  by (simp add: decodeValue_def stored_row_def)

lemma decode_number:
  "decodeValue P (stored_row k (encodeValue P (Json (JNumber n))) ver ex) =
     Inr (Value (Json (JNumber (StringToNumber P (String_number P n)))))"
  by (simp add: decodeValue_def stored_row_def)

lemma decode_boolean:
  "decodeValue P (stored_row k (encodeValue P (Json (JBool b))) ver ex) = Inr (Value (Json (JBool b)))"
  by (cases b) (simp_all add: decodeValue_def stored_row_def String_boolean_def)

lemma decode_stored:
  assumes "platform_inverts P v" and "value_ok v"
  shows "\<exists>v'. decodeValue P (stored_row k (encodeValue P v) ver ex) = Inr (Value v') \<and> same_value v' v"
proof (cases v)
  case (Binary arr)
  let ?copy = "\<lparr>buffer = toArrayBuffer arr, byteOffset = 0, byteLength = length (toArrayBuffer arr)\<rparr>"
  have "decodeValue P (stored_row k (encodeValue P v) ver ex) = Inr (Value (Binary ?copy))"
    unfolding Binary by (rule decode_binary)
  moreover have "bytes_of ?copy = bytes_of arr"
    using assms Binary by (simp add: toArrayBuffer_bytes) (simp add: bytes_of_def view_ok_def)
  ultimately show ?thesis
    using Binary by simp
next
  case (Json j)
  show ?thesis
  proof (cases j)
    case JNull
    then show ?thesis using assms Json by (simp add: decodeValue_def stored_row_def)
  next
    case (JBool b)
    then show ?thesis using Json by (simp add: decodeValue_def stored_row_def String_boolean_def)
  next
    case (JNumber n)
    then show ?thesis using assms Json by (simp add: decodeValue_def stored_row_def)
  next
    case (JString s)
    then show ?thesis using Json by (simp add: decodeValue_def stored_row_def)
  next
    case (JArray xs)
    then show ?thesis using assms Json by (simp add: decodeValue_def stored_row_def)
  next
    case (JObject ms)
    then show ?thesis using assms Json by (simp add: decodeValue_def stored_row_def)
  qed
qed

text \<open>
  The reference platform reads back the text it writes for a value of JavaScript whose
  numbers are finite and other than \<open>-0\<close>.
\<close>

lemma reference_inverts:
  assumes "js_value v" and "plain_value v"
  shows "platform_inverts reference v"
proof (cases v)
  case (Binary arr)
  then show ?thesis by simp
next
  case (Json j)
  with assms have j: "js_json j" "plain_json j" by simp_all
  have p: "JSON_parse reference (JSON_stringify reference j) = Inr j"
    using json_reads_back [OF j] by (simp add: reference_def)
  show ?thesis
  proof (cases j)
    case (JNumber n)
    with j have n: "is_number n" "finite_number n" "n \<noteq> NegativeZero" by simp_all
    then have "String_number reference n = ref_Number_toString n"
      by (cases n) (simp_all add: reference_def)
    with number_reads_back [OF n(1,3)] JNumber Json show ?thesis
      by (simp add: reference_def)
  qed (use Json p in simp_all)
qed

text \<open>
  The negative zero is written \<^verbatim>\<open>0\<close>, by \<^verbatim>\<open>String\<close> and by \<^verbatim>\<open>JSON.stringify\<close> alike,
  and \<^verbatim>\<open>0\<close> is read as the positive zero: the value that comes back is not the value
  that went in.
\<close>

theorem negative_zero_counterexample:
  "js_value (Json (JNumber NegativeZero)) \<and>
   encodeValue reference (Json (JNumber NegativeZero)) =
     \<lparr>enc_blob = None, enc_text = Some ''0'', enc_type = ''number''\<rparr> \<and>
   decodeValue reference (stored_row ''k'' (encodeValue reference (Json (JNumber NegativeZero))) ''v1'' None) =
     Inr (Value (Json (JNumber (Finite 0)))) \<and>
   Json (JNumber (Finite 0)) \<noteq> Json (JNumber NegativeZero)"
  by (simp add: decodeValue_def stored_row_def reference_def StringToNumber_zero)

text \<open>
  Claim C2, amended: decoding the row that carries the blob, text and type of
  \<open>encodeValue v\<close> gives \<open>v\<close> back, for every value of JavaScript whose numbers are
  finite and other than \<open>-0\<close>: the same JSON value for a string, a number, a boolean,
  \<^verbatim>\<open>null\<close>, an array or an object, and for a byte sequence a view with exactly the bytes
  of \<open>v\<close>. The number \<open>-0\<close> is stored as the text \<^verbatim>\<open>0\<close> and comes back as \<open>+0\<close>.
  \<^verbatim>\<open>String\<close>, \<^verbatim>\<open>Number\<close>, \<^verbatim>\<open>JSON.stringify\<close> and \<^verbatim>\<open>JSON.parse\<close> are those of the
  reference platform.
\<close>

theorem encode_decode_roundtrip:
  "(js_value v \<and> plain_value v \<longrightarrow>
      (case v of
         Json j \<Rightarrow> decodeValue reference (stored_row k (encodeValue reference v) ver ex) = Inr (Value (Json j))
       | Binary arr \<Rightarrow>
           (\<exists>arr'. decodeValue reference (stored_row k (encodeValue reference v) ver ex) =
                    Inr (Value (Binary arr'))
              \<and> bytes_of arr' = bytes_of arr \<and> view_ok arr'))) \<and>
   encodeValue reference (Json (JNumber NegativeZero)) =
     \<lparr>enc_blob = None, enc_text = Some ''0'', enc_type = ''number''\<rparr> \<and>
   decodeValue reference (stored_row k (encodeValue reference (Json (JNumber NegativeZero))) ver ex) =
     Inr (Value (Json (JNumber (Finite 0))))"
proof (intro conjI impI)
  assume "js_value v \<and> plain_value v"
  then have assms: "js_value v" "plain_value v" by simp_all
  show "case v of
          Json j \<Rightarrow> decodeValue reference (stored_row k (encodeValue reference v) ver ex) = Inr (Value (Json j))
        | Binary arr \<Rightarrow>
            (\<exists>arr'. decodeValue reference (stored_row k (encodeValue reference v) ver ex) =
                     Inr (Value (Binary arr'))
               \<and> bytes_of arr' = bytes_of arr \<and> view_ok arr')"
  proof (cases v)
    case (Binary arr)
    let ?copy = "\<lparr>buffer = toArrayBuffer arr, byteOffset = 0, byteLength = length (toArrayBuffer arr)\<rparr>"
    have "decodeValue reference (stored_row k (encodeValue reference v) ver ex) = Inr (Value (Binary ?copy))"
      unfolding Binary by (rule decode_binary)
    moreover have "bytes_of ?copy = bytes_of arr"
      using assms Binary by (simp add: toArrayBuffer_bytes) (simp add: bytes_of_def view_ok_def)
    moreover have "view_ok ?copy"
      by (simp add: view_ok_def)
    ultimately show ?thesis
      using Binary by auto
  next
    case (Json j)
    have inv: "platform_inverts reference (Json j)"
      using assms Json by (intro reference_inverts) simp_all
    have "decodeValue reference (stored_row k (encodeValue reference (Json j)) ver ex) = Inr (Value (Json j))"
    proof (cases j)
      case JNull
      then show ?thesis using inv by (simp add: decodeValue_def stored_row_def)
    next
      case (JBool b)
      then show ?thesis by (simp only: decode_boolean)
    next
      case (JNumber n)
      then show ?thesis using inv by (simp add: decode_number del: encodeValue.simps)
    next
      case (JString s)
      then show ?thesis by (simp only: decode_string)
    next
      case (JArray xs)
      then show ?thesis using inv by (simp add: decodeValue_def stored_row_def)
    next
      case (JObject ms)
      then show ?thesis using inv by (simp add: decodeValue_def stored_row_def)
    qed
    then show ?thesis using Json by simp
  qed
next
  show "encodeValue reference (Json (JNumber NegativeZero)) =
      \<lparr>enc_blob = None, enc_text = Some ''0'', enc_type = ''number''\<rparr>"
    by simp
next
  show "decodeValue reference (stored_row k (encodeValue reference (Json (JNumber NegativeZero))) ver ex) =
      Inr (Value (Json (JNumber (Finite 0))))"
    by (simp add: decodeValue_def stored_row_def reference_def StringToNumber_zero)
qed

theorem encode_decode_roundtrip_witness:
  "js_value (Json (JObject [(''name'', JString ''Alice''), (''age'', JNumber (Finite 30)),
       (''score'', JNumber (Fractional 3 1)), (''tags'', JArray [JNull, JBool False])])) \<and>
   plain_value (Json (JObject [(''name'', JString ''Alice''), (''age'', JNumber (Finite 30)),
       (''score'', JNumber (Fractional 3 1)), (''tags'', JArray [JNull, JBool False])])) \<and>
   decodeValue reference
     (stored_row ''user:1'' (encodeValue reference (Json (JObject [(''name'', JString ''Alice''),
        (''age'', JNumber (Finite 30)), (''score'', JNumber (Fractional 3 1)),
        (''tags'', JArray [JNull, JBool False])]))) ''v1'' None) =
   Inr (Value (Json (JObject [(''name'', JString ''Alice''), (''age'', JNumber (Finite 30)),
      (''score'', JNumber (Fractional 3 1)), (''tags'', JArray [JNull, JBool False])]))) \<and>
   js_value (Json (JNumber (Fractional (- 5) 2))) \<and> plain_value (Json (JNumber (Fractional (- 5) 2))) \<and>
   decodeValue reference (stored_row ''n'' (encodeValue reference (Json (JNumber (Fractional (- 5) 2)))) ''v2'' None) =
   Inr (Value (Json (JNumber (Fractional (- 5) 2)))) \<and>
   js_value (Binary \<lparr>buffer = [9, 1, 2, 3, 4, 7], byteOffset = 1, byteLength = 4\<rparr>) \<and>
   plain_value (Binary \<lparr>buffer = [9, 1, 2, 3, 4, 7], byteOffset = 1, byteLength = 4\<rparr>) \<and>
   (\<exists>arr'. decodeValue reference
       (stored_row ''b'' (encodeValue reference (Binary \<lparr>buffer = [9, 1, 2, 3, 4, 7], byteOffset = 1, byteLength = 4\<rparr>)) ''v3'' None) =
       Inr (Value (Binary arr')) \<and>
       bytes_of arr' = bytes_of \<lparr>buffer = [9, 1, 2, 3, 4, 7], byteOffset = 1, byteLength = 4\<rparr> \<and> view_ok arr') \<and>
   bytes_of \<lparr>buffer = [9, 1, 2, 3, 4, 7], byteOffset = 1, byteLength = 4\<rparr> = [1, 2, 3, 4] \<and>
   decodeValue reference (stored_row ''z'' (encodeValue reference (Json (JNumber NegativeZero))) ''v4'' None) =
   Inr (Value (Json (JNumber (Finite 0))))"
proof -
  let ?j = "Json (JObject [(''name'', JString ''Alice''), (''age'', JNumber (Finite 30)),
       (''score'', JNumber (Fractional 3 1)), (''tags'', JArray [JNull, JBool False])])"
  let ?n = "Json (JNumber (Fractional (- 5) 2))"
  let ?a = "\<lparr>buffer = [9, 1, 2, 3, 4, 7 :: byte], byteOffset = 1, byteLength = 4\<rparr>"
  have n30: "is_number (Finite 30)" by (simp add: number_eval)
  have n15: "is_number (Fractional 3 1)" by (simp add: number_eval)
  have jj: "js_value ?j"
    using n30 n15 by (simp add: object_of_def own_properties_def array_index_def is_digit_def)
  have pj: "plain_value ?j" by simp
  have jn: "js_value ?n" by (simp add: number_eval)
  have pn: "plain_value ?n" by simp
  have ja: "js_value (Binary ?a)" by (simp add: view_ok_def)
  have pa: "plain_value (Binary ?a)" by simp
  have bb: "bytes_of ?a = [1, 2, 3, 4]"
    by (simp add: bytes_of_def)
  have rj: "decodeValue reference (stored_row ''user:1'' (encodeValue reference ?j) ''v1'' None) = Inr (Value ?j)"
    using encode_decode_roundtrip [of ?j "''user:1''" "''v1''" None] jj pj
    by (simp only: KVValue.case simp_thms)
  have rn: "decodeValue reference (stored_row ''n'' (encodeValue reference ?n) ''v2'' None) = Inr (Value ?n)"
    using encode_decode_roundtrip [of ?n "''n''" "''v2''" None] jn pn
    by (simp only: KVValue.case simp_thms)
  have rb: "\<exists>arr'. decodeValue reference (stored_row ''b'' (encodeValue reference (Binary ?a)) ''v3'' None) =
       Inr (Value (Binary arr')) \<and> bytes_of arr' = bytes_of ?a \<and> view_ok arr'"
    using encode_decode_roundtrip [of "Binary ?a" "''b''" "''v3''" None] ja pa
    by (simp only: KVValue.case simp_thms)
  have rz: "decodeValue reference (stored_row ''z'' (encodeValue reference (Json (JNumber NegativeZero))) ''v4'' None) =
      Inr (Value (Json (JNumber (Finite 0))))"
    by (rule encode_decode_roundtrip [of ?n "''z''" "''v4''" None, THEN conjunct2, THEN conjunct2])
  show ?thesis
    by (intro conjI jj pj rj jn pn rn ja pa rb bb rz)
qed

section \<open>The operator allow-list (claim C5)\<close>

lemma buildWhereSql_error:
  "buildWhereSql f = Inl e \<Longrightarrow> e = Error ''NOT operator requires a condition''"
  "buildWhereSql_each fs = Inl e \<Longrightarrow> e = Error ''NOT operator requires a condition''"
  by (induction f and fs arbitrary: e and e rule: buildWhereSql_buildWhereSql_each.induct)
     (auto split: sum.splits prod.splits)

lemma buildWhereSql_each_fragments:
  assumes "\<And>f. f \<in> set fs \<Longrightarrow> negations_filled f \<Longrightarrow>
             buildWhereSql f = Inr (where_fragment f, where_arguments f)"
    and "list_all negations_filled fs"
  shows "buildWhereSql_each fs = Inr (map where_fragment fs, concat (map where_arguments fs))"
  using assms by (induction fs) simp_all

lemma buildWhereSql_each_fails:
  assumes "\<And>f. f \<in> set fs \<Longrightarrow> \<not> negations_filled f \<Longrightarrow> \<exists>e. buildWhereSql f = Inl e"
    and "\<not> list_all negations_filled fs"
  shows "\<exists>e. buildWhereSql_each fs = Inl e"
  using assms
proof (induction fs)
  case Nil
  then show ?case by simp
next
  case (Cons f fs)
  show ?case
  proof (cases "buildWhereSql f")
    case (Inl e)
    then show ?thesis by simp
  next
    case (Inr p)
    with Cons.prems(1) [of f] have "negations_filled f" by auto
    with Cons.prems(2) have "\<not> list_all negations_filled fs" by simp
    with Cons have "\<exists>e. buildWhereSql_each fs = Inl e" by simp
    with Inr show ?thesis by (auto split: prod.splits)
  qed
qed

lemma buildWhereSql_fragment:
  "negations_filled f \<Longrightarrow> buildWhereSql f = Inr (where_fragment f, where_arguments f)"
proof (induction f)
  case (Condition c)
  then show ?case by (simp add: allowed_operator_def safeOps_def)
next
  case (LogicResult lop fs)
  show ?case
  proof (cases lop)
    case Op_NOT
    show ?thesis
    proof (cases fs)
      case Nil
      with LogicResult.prems Op_NOT show ?thesis by simp
    next
      case (Cons first rest)
      with LogicResult Op_NOT show ?thesis by simp
    qed
  next
    case Op_AND
    with LogicResult.prems have "list_all negations_filled fs" by simp
    with LogicResult.IH have "buildWhereSql_each fs = Inr (map where_fragment fs, concat (map where_arguments fs))"
      by (intro buildWhereSql_each_fragments) simp_all
    with Op_AND show ?thesis by simp
  next
    case Op_OR
    with LogicResult.prems have "list_all negations_filled fs" by simp
    with LogicResult.IH have "buildWhereSql_each fs = Inr (map where_fragment fs, concat (map where_arguments fs))"
      by (intro buildWhereSql_each_fragments) simp_all
    with Op_OR show ?thesis by simp
  qed
qed

lemma buildWhereSql_fails:
  "\<not> negations_filled f \<Longrightarrow> \<exists>e. buildWhereSql f = Inl e"
proof (induction f)
  case (Condition c)
  then show ?case by simp
next
  case (LogicResult lop fs)
  show ?case
  proof (cases lop)
    case Op_NOT
    show ?thesis
    proof (cases fs)
      case Nil
      with Op_NOT show ?thesis by simp
    next
      case (Cons first rest)
      with LogicResult Op_NOT have "\<exists>e. buildWhereSql first = Inl e" by simp
      with Cons Op_NOT show ?thesis by auto
    qed
  next
    case Op_AND
    with LogicResult.prems have "\<not> list_all negations_filled fs" by simp
    with LogicResult.IH have "\<exists>e. buildWhereSql_each fs = Inl e"
      by (intro buildWhereSql_each_fails) simp_all
    with Op_AND show ?thesis by auto
  next
    case Op_OR
    with LogicResult.prems have "\<not> list_all negations_filled fs" by simp
    with LogicResult.IH have "\<exists>e. buildWhereSql_each fs = Inl e"
      by (intro buildWhereSql_each_fails) simp_all
    with Op_OR show ?thesis by auto
  qed
qed

lemma allowed_operator_cases:
  "allowed_operator c \<in> {''='', ''>'', ''<'', ''LIKE'', ''!=''}"
  "cond_operator c \<in> {''='', ''>'', ''<'', ''LIKE'', ''!=''} \<Longrightarrow> allowed_operator c = cond_operator c"
  "cond_operator c \<notin> {''='', ''>'', ''<'', ''LIKE'', ''!=''} \<Longrightarrow> allowed_operator c = ''=''"
  by (simp_all add: allowed_operator_def)

text \<open>
  Claim C5: every condition of a filter, at every depth, is compiled to
  \<^verbatim>\<open>json_extract(value_text, ?) OP ?\<close> where \<^verbatim>\<open>OP\<close> is one of the five allow-listed
  operators: the condition's own operator when it is on the list, and \<^verbatim>\<open>=\<close>
  otherwise. The text \<open>buildWhereSql\<close> returns for a filter, and the one \<open>list\<close>
  adds for a callback or for a single condition, is the text \<open>where_fragment\<close> with
  these operators and no other. An operator never makes the compiler raise: it fails
  for a \<^verbatim>\<open>NOT\<close> without a condition and for nothing else.
\<close>

theorem operator_allow_list:
  "(negations_filled f \<longrightarrow>
      buildWhereSql f = Inr (where_fragment f, where_arguments f) \<and>
      list_where (Some (Where_callback f)) =
        Inr ('' AND value_type = 'json' AND ('' @ where_fragment f @ '')'', where_arguments f)) \<and>
   (\<not> negations_filled f \<longrightarrow>
      buildWhereSql f = Inl (Error ''NOT operator requires a condition'') \<and>
      list_where (Some (Where_callback f)) = Inl (Error ''NOT operator requires a condition'')) \<and>
   buildWhereSql (Condition c) =
     Inr (''json_extract(value_text, ?) '' @ allowed_operator c @ '' ?'',
          [IString (''$.'' @ cond_field c), cond_value c]) \<and>
   list_where (Some (Where_condition c)) =
     Inr ('' AND value_type = 'json' AND json_extract(value_text, ?) '' @ allowed_operator c @ '' ?'',
          [IString (''$.'' @ cond_field c), cond_value c]) \<and>
   allowed_operator c \<in> {''='', ''>'', ''<'', ''LIKE'', ''!=''} \<and>
   (cond_operator c \<in> {''='', ''>'', ''<'', ''LIKE'', ''!=''} \<longrightarrow> allowed_operator c = cond_operator c) \<and>
   (cond_operator c \<notin> {''='', ''>'', ''<'', ''LIKE'', ''!=''} \<longrightarrow> allowed_operator c = ''='')"
proof -
  have ok: "negations_filled f \<longrightarrow>
      buildWhereSql f = Inr (where_fragment f, where_arguments f) \<and>
      list_where (Some (Where_callback f)) =
        Inr ('' AND value_type = 'json' AND ('' @ where_fragment f @ '')'', where_arguments f)"
    by (simp add: buildWhereSql_fragment)
  have bad: "\<not> negations_filled f \<longrightarrow>
      buildWhereSql f = Inl (Error ''NOT operator requires a condition'') \<and>
      list_where (Some (Where_callback f)) = Inl (Error ''NOT operator requires a condition'')"
  proof
    assume "\<not> negations_filled f"
    then obtain e where e: "buildWhereSql f = Inl e" using buildWhereSql_fails by blast
    then have "e = Error ''NOT operator requires a condition''" by (rule buildWhereSql_error(1))
    with e show "buildWhereSql f = Inl (Error ''NOT operator requires a condition'') \<and>
      list_where (Some (Where_callback f)) = Inl (Error ''NOT operator requires a condition'')"
      by simp
  qed
  have leaf: "buildWhereSql (Condition c) =
     Inr (''json_extract(value_text, ?) '' @ allowed_operator c @ '' ?'',
          [IString (''$.'' @ cond_field c), cond_value c])"
    by (simp add: allowed_operator_def safeOps_def)
  have single: "list_where (Some (Where_condition c)) =
     Inr ('' AND value_type = 'json' AND json_extract(value_text, ?) '' @ allowed_operator c @ '' ?'',
          [IString (''$.'' @ cond_field c), cond_value c])"
    by (simp add: allowed_operator_def safeOps_def)
  show ?thesis
    using ok bad leaf single allowed_operator_cases [of c] by (intro conjI) blast+
qed

theorem operator_allow_list_witness:
  "negations_filled
     (LogicResult Op_AND
        [Condition \<lparr>cond_field = ''age'', cond_operator = ''>'', cond_value = INumber (Finite 28)\<rparr>,
         LogicResult Op_NOT
           [Condition \<lparr>cond_field = ''name'', cond_operator = ''; DROP TABLE kv_store; --'', cond_value = IString ''x''\<rparr>]]) \<and>
   buildWhereSql
     (LogicResult Op_AND
        [Condition \<lparr>cond_field = ''age'', cond_operator = ''>'', cond_value = INumber (Finite 28)\<rparr>,
         LogicResult Op_NOT
           [Condition \<lparr>cond_field = ''name'', cond_operator = ''; DROP TABLE kv_store; --'', cond_value = IString ''x''\<rparr>]]) =
     Inr (''(json_extract(value_text, ?) > ? AND NOT (json_extract(value_text, ?) = ?))'',
          [IString ''$.age'', INumber (Finite 28), IString ''$.name'', IString ''x'']) \<and>
   \<not> negations_filled
     (LogicResult Op_OR
        [Condition \<lparr>cond_field = ''age'', cond_operator = ''>'', cond_value = INumber (Finite 28)\<rparr>,
         LogicResult Op_NOT []]) \<and>
   buildWhereSql
     (LogicResult Op_OR
        [Condition \<lparr>cond_field = ''age'', cond_operator = ''>'', cond_value = INumber (Finite 28)\<rparr>,
         LogicResult Op_NOT []]) = Inl (Error ''NOT operator requires a condition'') \<and>
   cond_operator \<lparr>cond_field = ''age'', cond_operator = ''>'', cond_value = INumber (Finite 28)\<rparr>
     \<in> {''='', ''>'', ''<'', ''LIKE'', ''!=''} \<and>
   allowed_operator \<lparr>cond_field = ''age'', cond_operator = ''>'', cond_value = INumber (Finite 28)\<rparr> = ''>'' \<and>
   cond_operator \<lparr>cond_field = ''name'', cond_operator = ''; DROP TABLE kv_store; --'', cond_value = IString ''x''\<rparr>
     \<notin> {''='', ''>'', ''<'', ''LIKE'', ''!=''} \<and>
   allowed_operator \<lparr>cond_field = ''name'', cond_operator = ''; DROP TABLE kv_store; --'', cond_value = IString ''x''\<rparr> = ''='' \<and>
   list_where (Some (Where_condition
       \<lparr>cond_field = ''name'', cond_operator = ''; DROP TABLE kv_store; --'', cond_value = IString ''x''\<rparr>)) =
     Inr ('' AND value_type = 'json' AND json_extract(value_text, ?) = ?'', [IString ''$.name'', IString ''x''])"
proof -
  let ?a = "\<lparr>cond_field = ''age'', cond_operator = ''>'', cond_value = INumber (Finite 28)\<rparr>"
  let ?b = "\<lparr>cond_field = ''name'', cond_operator = ''; DROP TABLE kv_store; --'', cond_value = IString ''x''\<rparr>"
  let ?f = "LogicResult Op_AND [Condition ?a, LogicResult Op_NOT [Condition ?b]]"
  let ?g = "LogicResult Op_OR [Condition ?a, LogicResult Op_NOT []]"
  have a: "cond_operator ?a \<in> {''='', ''>'', ''<'', ''LIKE'', ''!=''}" by simp
  have b: "cond_operator ?b \<notin> {''='', ''>'', ''<'', ''LIKE'', ''!=''}" by simp
  have f: "negations_filled ?f" by simp
  have g: "\<not> negations_filled ?g" by simp
  have oa: "allowed_operator ?a = ''>''"
    using operator_allow_list [of ?f ?a] a by simp
  have ob: "allowed_operator ?b = ''=''"
    using operator_allow_list [of ?f ?b] b by simp
  have "buildWhereSql ?f = Inr (where_fragment ?f, where_arguments ?f)"
    using operator_allow_list [of ?f ?a] f by blast
  then have cf: "buildWhereSql ?f =
      Inr (''(json_extract(value_text, ?) > ? AND NOT (json_extract(value_text, ?) = ?))'',
           [IString ''$.age'', INumber (Finite 28), IString ''$.name'', IString ''x''])"
    by (simp add: oa ob del: buildWhereSql.simps)
  have cg: "buildWhereSql ?g = Inl (Error ''NOT operator requires a condition'')"
    using operator_allow_list [of ?g ?a] g by blast
  have "list_where (Some (Where_condition ?b)) =
      Inr ('' AND value_type = 'json' AND json_extract(value_text, ?) '' @ allowed_operator ?b @ '' ?'',
           [IString (''$.'' @ cond_field ?b), cond_value ?b])"
    using operator_allow_list [of ?f ?b] by blast
  then have lb: "list_where (Some (Where_condition ?b)) =
      Inr ('' AND value_type = 'json' AND json_extract(value_text, ?) = ?'', [IString ''$.name'', IString ''x''])"
    by (simp add: ob del: list_where.simps)
  show ?thesis
    by (intro conjI f cf g cg a oa b ob lb)
qed

section \<open>Decode errors (claim C7)\<close>

lemma map_throwing_Inl:
  "x \<in> set xs \<Longrightarrow> f x = Inl e \<Longrightarrow> \<exists>e'. map_throwing f xs = Inl e'"
  by (induction xs) (auto split: sum.splits)

lemma entry_of_Inl: "decodeValue P r = Inl e \<Longrightarrow> entry_of P r = Inl e"
  by (simp add: entry_of_def)

lemma sqlite_list_plain:
  assumes "where_clause options = None" and "list_statement now options = Inr (sql, args)"
  shows "sqlite J sql args t =
    (Inr (order_limit (reverse options) (effective_limit options)
          (filter (\<lambda>r. live now r \<and>
              (case effective_prefix options of None \<Rightarrow> True | Some p \<Rightarrow> like (p @ ''%'') (key r))) t)), t)"
  using assms(2) unfolding list_statement_plain [OF assms(1)]
  by (auto simp add: sqlite_def list_sql_not_fixed parse_list_plain select_list_plain
        simp del: append.simps append_Cons not_None_eq)

text \<open>
  Claim C7 says that a row whose \<^verbatim>\<open>value_type\<close> is none of the five tags, or whose
  payload is missing, makes decode raise. \<open>decodeValue\<close> raises only for a row that has
  none of the three fields; its last line returns \<^verbatim>\<open>row.value_text\<close> for any other
  tag. The counterexample decodes a row tagged \<^verbatim>\<open>mystery\<close> to its text, through \<open>get\<close>
  too, and a row tagged \<^verbatim>\<open>binary\<close> whose blob is \<^verbatim>\<open>null\<close> to an empty byte sequence.
\<close>

theorem decode_unknown_type_counterexample:
  "decodeValue reference
     \<lparr>key = ''k'', value_blob = Null, value_text = Val ''x'', value_type = Val ''mystery'',
      version = ''v1'', expires_at = None\<rparr> = Inr (Value (Json (JString ''x''))) \<and>
   fst (get (sqlite None) reference 1000 ''k''
     [\<lparr>key = ''k'', value_blob = Null, value_text = Val ''x'', value_type = Val ''mystery'',
       version = ''v1'', expires_at = None\<rparr>]) =
     Inr (Some \<lparr>entry_key = ''k'', entry_value = Value (Json (JString ''x'')), entry_version = ''v1''\<rparr>) \<and>
   decodeValue reference
     \<lparr>key = ''k'', value_blob = Null, value_text = Null, value_type = Val ''binary'',
      version = ''v1'', expires_at = None\<rparr> =
     Inr (Value (Binary \<lparr>buffer = [], byteOffset = 0, byteLength = 0\<rparr>))"
  by (simp add: decodeValue_def get_def sqlite_get expired_def entry_of_def)

text \<open>
  Claim C7, amended: a row with none of the fields \<^verbatim>\<open>value_type\<close>, \<^verbatim>\<open>value_blob\<close>
  and \<^verbatim>\<open>value_text\<close> makes decode raise; an error of decode on the row that \<open>get\<close>
  reads, or on any row that \<open>list\<close> reads, reaches the caller as the outcome of the
  call, whatever the executor; and a row whose \<^verbatim>\<open>value_type\<close> is \<^verbatim>\<open>null\<close> or a
  string other than \<^verbatim>\<open>binary\<close>, \<^verbatim>\<open>number\<close>, \<^verbatim>\<open>boolean\<close> and \<^verbatim>\<open>json\<close> is decoded
  without error to its \<^verbatim>\<open>value_text\<close> as it is, and a row tagged \<^verbatim>\<open>binary\<close>
  whose blob is \<^verbatim>\<open>null\<close> to an empty byte sequence.
\<close>

theorem decode_error_propagates:
  "(value_type r = Absent \<and> value_blob r = Absent \<and> value_text r = Absent \<longrightarrow>
      decodeValue P r = Inl (Error ''Invalid row format for decoding value.'')) \<and>
   (decodeValue P r = Inl e \<and> execute get_sql [IString k] s = (Inr (r # rest), s') \<and> \<not> expired r now \<longrightarrow>
      get execute P now k s = (Inl e, s')) \<and>
   (decodeValue P r = Inl e \<and> list_statement now options = Inr (sql, args) \<and>
    execute sql args s = (Inr rows, s') \<and> r \<in> set rows \<longrightarrow>
      (\<exists>e'. list_kv execute P now options s = (Inl e', s'))) \<and>
   (\<forall>ty. value_type r = Val ty \<and> ty \<notin> {''binary'', ''number'', ''boolean'', ''json''} \<longrightarrow>
      decodeValue P r = Inr (as_is (value_text r))) \<and>
   (value_type r = Null \<longrightarrow> decodeValue P r = Inr (as_is (value_text r))) \<and>
   (value_type r = Val ''binary'' \<and> value_blob r = Null \<longrightarrow>
      decodeValue P r = Inr (Value (Binary \<lparr>buffer = [], byteOffset = 0, byteLength = 0\<rparr>)))"
proof (intro conjI impI allI)
  assume "value_type r = Absent \<and> value_blob r = Absent \<and> value_text r = Absent"
  then show "decodeValue P r = Inl (Error ''Invalid row format for decoding value.'')"
    by (simp add: decodeValue_def)
next
  assume "decodeValue P r = Inl e \<and> execute get_sql [IString k] s = (Inr (r # rest), s') \<and> \<not> expired r now"
  then show "get execute P now k s = (Inl e, s')"
    by (simp add: get_def entry_of_Inl)
next
  assume a: "decodeValue P r = Inl e \<and> list_statement now options = Inr (sql, args) \<and>
    execute sql args s = (Inr rows, s') \<and> r \<in> set rows"
  then obtain e' where "map_throwing (entry_of P) rows = Inl e'"
    using map_throwing_Inl [of r rows "entry_of P" e] entry_of_Inl [of P r e] by blast
  then show "\<exists>e'. list_kv execute P now options s = (Inl e', s')"
    using a by (simp add: list_kv_def)
next
  fix ty
  assume "value_type r = Val ty \<and> ty \<notin> {''binary'', ''number'', ''boolean'', ''json''}"
  then show "decodeValue P r = Inr (as_is (value_text r))"
    by (auto simp: decodeValue_def)
next
  assume "value_type r = Null"
  then show "decodeValue P r = Inr (as_is (value_text r))"
    by (simp add: decodeValue_def)
next
  assume "value_type r = Val ''binary'' \<and> value_blob r = Null"
  then show "decodeValue P r = Inr (Value (Binary \<lparr>buffer = [], byteOffset = 0, byteLength = 0\<rparr>))"
    by (simp add: decodeValue_def)
qed

theorem decode_error_propagates_witness:
  "decodeValue reference \<lparr>key = ''k'', value_blob = Absent, value_text = Absent, value_type = Absent,
      version = ''v1'', expires_at = None\<rparr> = Inl (Error ''Invalid row format for decoding value.'') \<and>
   get (sqlite None) reference 1000 ''k''
     [\<lparr>key = ''k'', value_blob = Absent, value_text = Absent, value_type = Absent, version = ''v1'', expires_at = None\<rparr>] =
     (Inl (Error ''Invalid row format for decoding value.''),
      [\<lparr>key = ''k'', value_blob = Absent, value_text = Absent, value_type = Absent, version = ''v1'', expires_at = None\<rparr>]) \<and>
   (\<exists>e'. list_kv (sqlite None) reference 1000
       \<lparr>prefix = None, limit = None, cursor = None, where_clause = None, reverse = False\<rparr>
       [\<lparr>key = ''k'', value_blob = Absent, value_text = Absent, value_type = Absent, version = ''v1'', expires_at = None\<rparr>] =
     (Inl e', [\<lparr>key = ''k'', value_blob = Absent, value_text = Absent, value_type = Absent, version = ''v1'', expires_at = None\<rparr>])) \<and>
   decodeValue reference \<lparr>key = ''k'', value_blob = Null, value_text = Val ''x'', value_type = Val ''mystery'',
      version = ''v1'', expires_at = None\<rparr> = Inr (Value (Json (JString ''x'')))"
proof -
  let ?bad = "\<lparr>key = ''k'', value_blob = Absent, value_text = Absent, value_type = Absent, version = ''v1'', expires_at = None\<rparr>"
  let ?odd = "\<lparr>key = ''k'', value_blob = Null, value_text = Val ''x'', value_type = Val ''mystery'', version = ''v1'', expires_at = None\<rparr>"
  let ?options = "\<lparr>prefix = None, limit = None, cursor = None, where_clause = None, reverse = False\<rparr>"
  let ?e = "Error ''Invalid row format for decoding value.''"
  obtain sql args where st: "list_statement 1000 ?options = Inr (sql, args)"
    by (simp add: list_statement_plain)
  have d: "decodeValue reference ?bad = Inl ?e"
    by (simp add: decodeValue_def)
  have g: "sqlite None get_sql [IString ''k''] [?bad] = (Inr (?bad # []), [?bad])"
    by (simp add: sqlite_get)
  have x: "\<not> expired ?bad 1000"
    by (simp add: expired_def)
  have l: "sqlite None sql args [?bad] = (Inr [?bad], [?bad])"
    using sqlite_list_plain [OF _ st, of None "[?bad]"]
    by (simp add: effective_prefix_def effective_limit_def order_limit_def live_def)
  have o: "value_type ?odd = Val ''mystery'' \<and> ''mystery'' \<notin> {''binary'', ''number'', ''boolean'', ''json''}"
    by simp
  note T = decode_error_propagates [where r = ?bad and P = reference and e = ?e and execute = "sqlite None"
      and k = "''k''" and s = "[?bad]" and rest = "[]" and s' = "[?bad]" and now = 1000
      and options = ?options and sql = sql and args = args and rows = "[?bad]"]
  have "get (sqlite None) reference 1000 ''k'' [?bad] = (Inl ?e, [?bad])"
    using T d g x by blast
  moreover have "\<exists>e'. list_kv (sqlite None) reference 1000 ?options [?bad] = (Inl e', [?bad])"
    using T d st l by simp
  moreover have "decodeValue reference ?odd = Inr (Value (Json (JString ''x'')))"
    using decode_error_propagates [where r = ?odd and P = reference, THEN conjunct2, THEN conjunct2,
        THEN conjunct2, THEN conjunct1, rule_format, of "''mystery''"] o
    by simp
  ultimately show ?thesis
    using d by blast
qed

section \<open>The shape of getMany (claim C3)\<close>

lemma map_throwing_Inr:
  "map_throwing f xs = Inr ys \<Longrightarrow> length ys = length xs \<and> (\<forall>i<length xs. f (xs ! i) = Inr (ys ! i))"
proof (induction xs arbitrary: ys)
  case Nil
  then show ?case by simp
next
  case (Cons x xs)
  then obtain y ys' where y: "f x = Inr y" and ys': "map_throwing f xs = Inr ys'" and ys: "ys = y # ys'"
    by (auto split: sum.splits)
  have "length ys' = length xs \<and> (\<forall>i<length xs. f (xs ! i) = Inr (ys' ! i))"
    using Cons.IH [OF ys'] .
  then show ?case
    using y ys by (auto simp: nth_Cons split: nat.splits)
qed

lemma map_throwing_total:
  "(\<And>x. x \<in> set xs \<Longrightarrow> \<exists>y. f x = Inr y) \<Longrightarrow> \<exists>ys. map_throwing f xs = Inr ys"
proof (induction xs)
  case Nil
  then show ?case by simp
next
  case (Cons x xs)
  obtain y where "f x = Inr y" using Cons.prems [of x] by auto
  moreover obtain ys where "map_throwing f xs = Inr ys" using Cons by auto
  ultimately show ?case by simp
qed

lemma getMany_rows_lookup:
  "fst (getMany_rows execute now rows m s) k =
     (if filter (\<lambda>r. key r = k \<and> \<not> expired r now) rows = [] then m k
      else Some (last (filter (\<lambda>r. key r = k \<and> \<not> expired r now) rows)))"
  by (induction rows arbitrary: m s) auto

lemma getMany_rows_empty_None:
  "fst (getMany_rows execute now rows Map.empty s) k = None \<longleftrightarrow>
     (\<forall>r\<in>set rows. key r = k \<longrightarrow> expired r now)"
  by (auto simp: getMany_rows_lookup filter_empty_conv)

lemma getMany_rows_empty_Some:
  assumes "fst (getMany_rows execute now rows Map.empty s) k = Some r"
  shows "key r = k \<and> \<not> expired r now \<and> r \<in> set rows"
proof -
  let ?live = "filter (\<lambda>r. key r = k \<and> \<not> expired r now) rows"
  have ne: "?live \<noteq> []" and r: "r = last ?live"
    using assms by (auto simp: getMany_rows_lookup split: if_splits)
  have "last ?live \<in> set ?live" using ne by (rule last_in_set)
  then show ?thesis using r by auto
qed

lemma getMany_slot_None:
  "getMany_slot P m k = Inr None \<longleftrightarrow> m k = None"
  by (auto simp: getMany_slot_def split: option.splits sum.splits)

lemma getMany_slot_Some:
  "getMany_slot P m k = Inr (Some entry) \<Longrightarrow> \<exists>r. m k = Some r \<and> entry_key entry = key r"
  by (auto simp: getMany_slot_def entry_of_def split: option.splits sum.splits)

lemma getMany_run:
  assumes "keys \<noteq> []" and "execute (getMany_sql keys) (map IString keys) s = (Inr rows, s')"
  shows "fst (getMany execute P now keys s) =
     map_throwing (getMany_slot P (fst (getMany_rows execute now rows Map.empty s'))) keys"
  using assms by (simp add: getMany_def split: prod.splits)

lemma getMany_Inr:
  assumes "fst (getMany execute P now keys s) = Inr res"
  shows "(keys = [] \<and> res = []) \<or>
         (keys \<noteq> [] \<and> (\<exists>rows s'. execute (getMany_sql keys) (map IString keys) s = (Inr rows, s')))"
  using assms by (auto simp: getMany_def split: if_splits prod.splits sum.splits)

text \<open>
  Claim C3, for every executor. With no keys \<open>getMany\<close> returns the empty list and
  the session state it was given, so the executor was not called. A list that
  \<open>getMany\<close> returns has the length of the keys, an entry in slot \<open>i\<close> carries key
  \<open>i\<close>, and equal keys have equal slots. A slot is \<^verbatim>\<open>null\<close> exactly when every
  fetched row with its key is expired at \<open>now\<close> (or there is none). And \<open>getMany\<close>
  does return a list when the query succeeds and every live row decodes.
\<close>

theorem getMany_shape:
  "getMany execute P now [] s = (Inr [], s) \<and>
   (fst (getMany execute P now keys s) = Inr res \<longrightarrow>
      length res = length keys \<and>
      (\<forall>i<length keys. \<forall>entry. res ! i = Some entry \<longrightarrow> entry_key entry = keys ! i) \<and>
      (\<forall>i<length keys. \<forall>j<length keys. keys ! i = keys ! j \<longrightarrow> res ! i = res ! j)) \<and>
   (keys \<noteq> [] \<and> execute (getMany_sql keys) (map IString keys) s = (Inr rows, s') \<and>
    fst (getMany execute P now keys s) = Inr res \<longrightarrow>
      (\<forall>i<length keys. (res ! i = None) = (\<forall>r\<in>set rows. key r = keys ! i \<longrightarrow> expired r now))) \<and>
   (keys \<noteq> [] \<and> execute (getMany_sql keys) (map IString keys) s = (Inr rows, s') \<and>
    (\<forall>r\<in>set rows. \<not> expired r now \<longrightarrow> (\<exists>v. decodeValue P r = Inr v)) \<longrightarrow>
      (\<exists>found. fst (getMany execute P now keys s) = Inr found))"
proof -
  have c1: "getMany execute P now [] s = (Inr [], s)"
    by (simp add: getMany_def)
  have c2: "fst (getMany execute P now keys s) = Inr res \<longrightarrow>
      length res = length keys \<and>
      (\<forall>i<length keys. \<forall>entry. res ! i = Some entry \<longrightarrow> entry_key entry = keys ! i) \<and>
      (\<forall>i<length keys. \<forall>j<length keys. keys ! i = keys ! j \<longrightarrow> res ! i = res ! j)"
  proof
    assume res: "fst (getMany execute P now keys s) = Inr res"
    show "length res = length keys \<and>
      (\<forall>i<length keys. \<forall>entry. res ! i = Some entry \<longrightarrow> entry_key entry = keys ! i) \<and>
      (\<forall>i<length keys. \<forall>j<length keys. keys ! i = keys ! j \<longrightarrow> res ! i = res ! j)"
    proof (cases "keys = []")
      case True
      then show ?thesis using res by (simp add: getMany_def)
    next
      case False
      then obtain rows s' where ex: "execute (getMany_sql keys) (map IString keys) s = (Inr rows, s')"
        using getMany_Inr [OF res] by auto
      let ?m = "fst (getMany_rows execute now rows Map.empty s')"
      have "map_throwing (getMany_slot P ?m) keys = Inr res"
        using getMany_run [of keys execute s rows s' P now] False ex res by simp
      then have len: "length res = length keys"
        and slot: "\<And>i. i < length keys \<Longrightarrow> getMany_slot P ?m (keys ! i) = Inr (res ! i)"
        using map_throwing_Inr [of "getMany_slot P ?m" keys res] by auto
      have "entry_key entry = keys ! i" if "i < length keys" "res ! i = Some entry" for i entry
      proof -
        have "getMany_slot P ?m (keys ! i) = Inr (Some entry)" using slot that by simp
        then obtain r where "?m (keys ! i) = Some r" "entry_key entry = key r"
          using getMany_slot_Some by blast
        then show ?thesis using getMany_rows_empty_Some by metis
      qed
      moreover have "res ! i = res ! j" if "i < length keys" "j < length keys" "keys ! i = keys ! j" for i j
        using slot [of i] slot [of j] that by simp
      ultimately show ?thesis using len by blast
    qed
  qed
  have c3: "keys \<noteq> [] \<and> execute (getMany_sql keys) (map IString keys) s = (Inr rows, s') \<and>
    fst (getMany execute P now keys s) = Inr res \<longrightarrow>
      (\<forall>i<length keys. (res ! i = None) = (\<forall>r\<in>set rows. key r = keys ! i \<longrightarrow> expired r now))"
  proof
    assume a: "keys \<noteq> [] \<and> execute (getMany_sql keys) (map IString keys) s = (Inr rows, s') \<and>
      fst (getMany execute P now keys s) = Inr res"
    let ?m = "fst (getMany_rows execute now rows Map.empty s')"
    have "map_throwing (getMany_slot P ?m) keys = Inr res"
      using getMany_run [of keys execute s rows s' P now] a by simp
    then have slot: "\<And>i. i < length keys \<Longrightarrow> getMany_slot P ?m (keys ! i) = Inr (res ! i)"
      using map_throwing_Inr [of "getMany_slot P ?m" keys res] by auto
    show "\<forall>i<length keys. (res ! i = None) = (\<forall>r\<in>set rows. key r = keys ! i \<longrightarrow> expired r now)"
    proof (intro allI impI)
      fix i assume i: "i < length keys"
      have "(res ! i = None) = (getMany_slot P ?m (keys ! i) = Inr None)"
        using slot [OF i] by auto
      then show "(res ! i = None) = (\<forall>r\<in>set rows. key r = keys ! i \<longrightarrow> expired r now)"
        by (simp only: getMany_slot_None getMany_rows_empty_None)
    qed
  qed
  have c4: "keys \<noteq> [] \<and> execute (getMany_sql keys) (map IString keys) s = (Inr rows, s') \<and>
    (\<forall>r\<in>set rows. \<not> expired r now \<longrightarrow> (\<exists>v. decodeValue P r = Inr v)) \<longrightarrow>
      (\<exists>found. fst (getMany execute P now keys s) = Inr found)"
  proof
    assume a: "keys \<noteq> [] \<and> execute (getMany_sql keys) (map IString keys) s = (Inr rows, s') \<and>
      (\<forall>r\<in>set rows. \<not> expired r now \<longrightarrow> (\<exists>v. decodeValue P r = Inr v))"
    let ?m = "fst (getMany_rows execute now rows Map.empty s')"
    have "\<exists>y. getMany_slot P ?m k = Inr y" for k
    proof (cases "?m k")
      case None
      then show ?thesis by (simp add: getMany_slot_def)
    next
      case (Some r)
      then have "\<not> expired r now \<and> r \<in> set rows" using getMany_rows_empty_Some by metis
      then obtain v where "decodeValue P r = Inr v" using a by blast
      then show ?thesis using Some by (simp add: getMany_slot_def entry_of_def)
    qed
    then have "\<exists>found. map_throwing (getMany_slot P ?m) keys = Inr found"
      using map_throwing_total [of keys "getMany_slot P ?m"] by blast
    then show "\<exists>found. fst (getMany execute P now keys s) = Inr found"
      using getMany_run [of keys execute s rows s' P now] a by simp
  qed
  show ?thesis
    using c1 c2 c3 c4 by (intro conjI)
qed


theorem getMany_shape_witness:
  "getMany (sqlite None) reference 2000 []
     [\<lparr>key = ''key1'', value_blob = Null, value_text = Val ''value1'', value_type = Val ''string'', version = ''v1'', expires_at = None\<rparr>,
      \<lparr>key = ''key3'', value_blob = Null, value_text = Val ''value3'', value_type = Val ''string'', version = ''v3'', expires_at = Some 1500\<rparr>] =
     (Inr [],
      [\<lparr>key = ''key1'', value_blob = Null, value_text = Val ''value1'', value_type = Val ''string'', version = ''v1'', expires_at = None\<rparr>,
       \<lparr>key = ''key3'', value_blob = Null, value_text = Val ''value3'', value_type = Val ''string'', version = ''v3'', expires_at = Some 1500\<rparr>]) \<and>
   fst (getMany (sqlite None) reference 2000 [''key1'', ''key3'', ''missing'', ''key1'']
     [\<lparr>key = ''key1'', value_blob = Null, value_text = Val ''value1'', value_type = Val ''string'', version = ''v1'', expires_at = None\<rparr>,
      \<lparr>key = ''key3'', value_blob = Null, value_text = Val ''value3'', value_type = Val ''string'', version = ''v3'', expires_at = Some 1500\<rparr>]) =
     Inr [Some \<lparr>entry_key = ''key1'', entry_value = Value (Json (JString ''value1'')), entry_version = ''v1''\<rparr>,
          None, None,
          Some \<lparr>entry_key = ''key1'', entry_value = Value (Json (JString ''value1'')), entry_version = ''v1''\<rparr>] \<and>
   length [Some \<lparr>entry_key = ''key1'', entry_value = Value (Json (JString ''value1'')), entry_version = ''v1''\<rparr>,
          None, None,
          Some \<lparr>entry_key = ''key1'', entry_value = Value (Json (JString ''value1'')), entry_version = ''v1''\<rparr>] =
     length [''key1'', ''key3'', ''missing'', ''key1''] \<and>
   expired \<lparr>key = ''key3'', value_blob = Null, value_text = Val ''value3'', value_type = Val ''string'', version = ''v3'', expires_at = Some 1500\<rparr> 2000"
proof -
  let ?r1 = "\<lparr>key = ''key1'', value_blob = Null, value_text = Val ''value1'', value_type = Val ''string'', version = ''v1'', expires_at = None\<rparr>"
  let ?r3 = "\<lparr>key = ''key3'', value_blob = Null, value_text = Val ''value3'', value_type = Val ''string'', version = ''v3'', expires_at = Some 1500\<rparr>"
  let ?e1 = "\<lparr>entry_key = ''key1'', entry_value = Value (Json (JString ''value1'')), entry_version = ''v1''\<rparr>"
  let ?keys = "[''key1'', ''key3'', ''missing'', ''key1'']"
  let ?res = "[Some ?e1, None, None, Some ?e1]"
  have ex: "sqlite None (getMany_sql ?keys) (map IString ?keys) [?r1, ?r3] = (Inr [?r1, ?r3], [?r1, ?r3])"
    using sqlite_getMany [of ?keys None "[?r1, ?r3]"] by simp
  have x3: "expired ?r3 2000" and x1: "\<not> expired ?r1 2000"
    by (simp_all add: expired_def)
  have d1: "decodeValue reference ?r1 = Inr (Value (Json (JString ''value1'')))"
    by (simp add: decodeValue_def)
  have dec: "\<forall>r\<in>set [?r1, ?r3]. \<not> expired r 2000 \<longrightarrow> (\<exists>v. decodeValue reference r = Inr v)"
    using d1 x3 by simp
  note T = getMany_shape [where execute = "sqlite None" and P = reference and now = 2000 and keys = ?keys
      and s = "[?r1, ?r3]" and rows = "[?r1, ?r3]" and s' = "[?r1, ?r3]"]
  have run: "fst (getMany (sqlite None) reference 2000 ?keys [?r1, ?r3]) = Inr ?res"
    using ex x1 x3 d1
    by (simp add: getMany_def getMany_slot_def entry_of_def sqlite_del del_def split: prod.splits)
  have "getMany (sqlite None) reference 2000 [] [?r1, ?r3] = (Inr [], [?r1, ?r3])"
    using T [where res = ?res] by blast
  moreover have "length ?res = length ?keys"
    using T [where res = ?res] run by blast
  ultimately show ?thesis
    using run x3 by blast
qed

section \<open>No caller data in the SQL text (claim C10)\<close>

lemma buildWhereSql_each_erase:
  assumes "\<And>f. f \<in> set fs \<Longrightarrow> map_sum (\<lambda>e. e) fst (buildWhereSql (erase_filter f)) = map_sum (\<lambda>e. e) fst (buildWhereSql f)"
  shows "map_sum (\<lambda>e. e) fst (buildWhereSql_each (map erase_filter fs)) = map_sum (\<lambda>e. e) fst (buildWhereSql_each fs)"
  using assms
proof (induction fs)
  case Nil
  then show ?case by simp
next
  case (Cons f fs)
  have head: "map_sum (\<lambda>e. e) fst (buildWhereSql (erase_filter f)) = map_sum (\<lambda>e. e) fst (buildWhereSql f)"
    using Cons.prems by simp
  have tail: "map_sum (\<lambda>e. e) fst (buildWhereSql_each (map erase_filter fs)) = map_sum (\<lambda>e. e) fst (buildWhereSql_each fs)"
    using Cons by simp
  show ?case
    using head tail
    by (cases "buildWhereSql f"; cases "buildWhereSql (erase_filter f)";
        cases "buildWhereSql_each fs"; cases "buildWhereSql_each (map erase_filter fs)") auto
qed

lemma buildWhereSql_erase:
  "map_sum (\<lambda>e. e) fst (buildWhereSql (erase_filter f)) = map_sum (\<lambda>e. e) fst (buildWhereSql f)"
proof (induction f)
  case (Condition c)
  then show ?case by (simp add: safeOps_def)
next
  case (LogicResult lop fs)
  have each: "map_sum (\<lambda>e. e) fst (buildWhereSql_each (map erase_filter fs)) = map_sum (\<lambda>e. e) fst (buildWhereSql_each fs)"
    using LogicResult by (intro buildWhereSql_each_erase) simp
  show ?case
  proof (cases lop)
    case Op_NOT
    show ?thesis
    proof (cases fs)
      case Nil
      then show ?thesis using Op_NOT by simp
    next
      case (Cons first rest)
      have "map_sum (\<lambda>e. e) fst (buildWhereSql (erase_filter first)) = map_sum (\<lambda>e. e) fst (buildWhereSql first)"
        using LogicResult Cons by simp
      then show ?thesis
        using Op_NOT Cons
        by (cases "buildWhereSql first"; cases "buildWhereSql (erase_filter first)") auto
    qed
  next
    case Op_AND
    then show ?thesis
      using each
      by (cases "buildWhereSql_each fs"; cases "buildWhereSql_each (map erase_filter fs)") auto
  next
    case Op_OR
    then show ?thesis
      using each
      by (cases "buildWhereSql_each fs"; cases "buildWhereSql_each (map erase_filter fs)") auto
  qed
qed

lemma list_where_erase:
  "map_sum (\<lambda>e. e) fst (list_where (map_option erase_where w)) = map_sum (\<lambda>e. e) fst (list_where w)"
proof (cases w)
  case None
  then show ?thesis by simp
next
  case (Some wo)
  show ?thesis
  proof (cases wo)
    case (Where_condition c)
    then show ?thesis using Some by (simp add: safeOps_def)
  next
    case (Where_callback f)
    then show ?thesis
      using Some buildWhereSql_erase [of f]
      by (cases "buildWhereSql f"; cases "buildWhereSql (erase_filter f)") auto
  qed
qed

lemma effective_shape_of:
  "effective_prefix (shape_of options) = map_option (\<lambda>p. ''x'') (effective_prefix options)"
  "effective_limit (shape_of options) = map_option (\<lambda>n. 1) (effective_limit options)"
  by (simp_all add: shape_of_def effective_prefix_def effective_limit_def split: option.splits)

lemma list_statement_text:
  "map_sum (\<lambda>e. e) fst (list_statement now options) =
     (case list_where (where_clause options) of
        Inl e \<Rightarrow> Inl e
      | Inr (where_sql, where_args) \<Rightarrow>
          Inr (list_head @ (if effective_prefix options \<noteq> None then '' AND key LIKE ?'' else []) @ where_sql @
               '' ORDER BY key '' @ (if reverse options then ''DESC'' else ''ASC'') @
               (if effective_limit options \<noteq> None then '' LIMIT ?'' else [])))"
  by (simp add: list_statement_def list_head_def effective_prefix_def effective_limit_def Let_def
        split: option.splits sum.splits prod.splits)

lemma list_statement_shape:
  "map_sum (\<lambda>e. e) fst (list_statement now' (shape_of options)) = map_sum (\<lambda>e. e) fst (list_statement now options)"
proof -
  have w: "map_sum (\<lambda>e. e) fst (list_where (where_clause (shape_of options))) =
           map_sum (\<lambda>e. e) fst (list_where (where_clause options))"
    using list_where_erase [of "where_clause options"] by (simp add: shape_of_def)
  have r: "reverse (shape_of options) = reverse options"
    by (simp add: shape_of_def)
  show ?thesis
    unfolding list_statement_text effective_shape_of r
    using w
    by (cases "list_where (where_clause (shape_of options))"; cases "list_where (where_clause options)")
       (auto split: option.splits)
qed


lemma getMany_sql_length:
  "length keys = length keys' \<Longrightarrow> getMany_sql keys = getMany_sql keys'"
  by (simp add: getMany_sql_def placeholders_def map_replicate_const)

lemma del_recording:
  "snd (snd (del (recording execute) k (s, log))) = log @ [(del_sql, [IString k])]"
  by (simp add: del_def recording_def split: prod.splits sum.splits)

lemma getMany_rows_texts:
  "set (map fst (snd (snd (getMany_rows (recording execute) now rows m (s, log))))) \<subseteq>
     set (map fst log) \<union> {del_sql}"
proof (induction rows arbitrary: m s log)
  case Nil
  then show ?case by auto
next
  case (Cons r rows)
  show ?case
  proof (cases "expired r now")
    case True
    obtain s1 where s1: "snd (del (recording execute) (key r) (s, log)) = (s1, log @ [(del_sql, [IString (key r)])])"
      using del_recording [of execute "key r" s log]
      by (cases "snd (del (recording execute) (key r) (s, log))") simp
    show ?thesis
      using Cons.IH [of m s1 "log @ [(del_sql, [IString (key r)])]"] True s1 by auto
  next
    case False
    have "set (map fst (snd (snd (getMany_rows (recording execute) now rows (m(key r \<mapsto> r)) (s, log))))) \<subseteq>
            set (map fst log) \<union> {del_sql}"
      by (rule Cons.IH)
    then show ?thesis using False by (simp only: getMany_rows.simps if_False)
  qed
qed

lemma getMany_texts:
  "set (texts_of (getMany (recording execute) P now keys (s, []))) \<subseteq> {getMany_sql keys, del_sql}"
proof (cases "keys = []")
  case True
  then show ?thesis by (simp add: getMany_def texts_of_def)
next
  case False
  obtain res s1 where ex: "execute (getMany_sql keys) (map IString keys) s = (res, s1)"
    by (cases "execute (getMany_sql keys) (map IString keys) s")
  let ?log = "[(getMany_sql keys, map IString keys)]"
  have rec: "recording execute (getMany_sql keys) (map IString keys) (s, []) = (res, (s1, ?log))"
    using ex by (simp add: recording_def)
  show ?thesis
  proof (cases res)
    case (Inl e)
    then show ?thesis using False rec by (simp add: getMany_def texts_of_def)
  next
    case (Inr rows)
    obtain m s2 log2 where gm: "getMany_rows (recording execute) now rows Map.empty (s1, ?log) = (m, s2, log2)"
      by (cases "getMany_rows (recording execute) now rows Map.empty (s1, ?log)") auto
    have "set (map fst (snd (snd (getMany_rows (recording execute) now rows Map.empty (s1, ?log))))) \<subseteq>
            set (map fst ?log) \<union> {del_sql}"
      by (rule getMany_rows_texts)
    then have "set (map fst log2) \<subseteq> {getMany_sql keys, del_sql}"
      using gm by auto
    then show ?thesis
      using False rec Inr gm by (simp add: getMany_def texts_of_def)
  qed
qed

lemma get_texts:
  "texts_of (get (recording execute) P now k (s, [])) \<in> {[get_sql], [get_sql, del_sql]}"
  by (auto simp: texts_of_def get_def recording_def del_def split: prod.splits sum.splits list.splits)

lemma list_kv_texts:
  "texts_of (list_kv (recording execute) P now options (s, [])) =
     (case list_statement now options of Inl e \<Rightarrow> [] | Inr (sql, args) \<Rightarrow> [sql])"
  by (auto simp: texts_of_def list_kv_def recording_def split: prod.splits sum.splits)

text \<open>
  Claim C10. Run on a recording executor, \<open>get\<close> hands over the fixed text
  \<open>get_sql\<close>, followed by \<open>del_sql\<close> when it finds the row expired; \<open>getMany\<close> the
  text for the number of its keys and \<open>del_sql\<close>; \<open>set\<close>, \<open>del\<close> and
  \<open>cleanupExpired\<close> one fixed text each; \<open>list\<close> the text of its statement, or
  nothing when the compiler raised. Two key lists of one length give the same text, and
  two option records of one shape give the same text (or both the compiler's error),
  whatever the instants of the calls.
\<close>

theorem sql_text_free_of_data:
  "texts_of (get (recording execute) P now k (s, [])) \<in> {[get_sql], [get_sql, del_sql]} \<and>
   set (texts_of (getMany (recording execute) P now keys (s, []))) \<subseteq> {getMany_sql keys, del_sql} \<and>
   texts_of (set_kv (recording execute) P now ver k v options (s, [])) = [set_sql] \<and>
   texts_of (del (recording execute) k (s, [])) = [del_sql] \<and>
   texts_of (cleanupExpired (recording execute) now (s, [])) = [cleanupExpired_sql] \<and>
   texts_of (list_kv (recording execute) P now loptions (s, [])) =
     (case list_statement now loptions of Inl e \<Rightarrow> [] | Inr (sql, args) \<Rightarrow> [sql]) \<and>
   (length keys = length keys' \<longrightarrow> getMany_sql keys = getMany_sql keys') \<and>
   (shape_of loptions = shape_of loptions' \<longrightarrow>
      map_sum (\<lambda>e. e) fst (list_statement now loptions) = map_sum (\<lambda>e. e) fst (list_statement now' loptions'))"
proof -
  have set_t: "texts_of (set_kv (recording execute) P now ver k v options (s, [])) = [set_sql]"
    by (simp add: texts_of_def set_kv_def recording_def split: prod.splits sum.splits)
  have del_t: "texts_of (del (recording execute) k (s, [])) = [del_sql]"
    by (simp add: texts_of_def del_recording)
  have cl_t: "texts_of (cleanupExpired (recording execute) now (s, [])) = [cleanupExpired_sql]"
    by (simp add: texts_of_def cleanupExpired_def recording_def split: prod.splits sum.splits)
  have many: "length keys = length keys' \<longrightarrow> getMany_sql keys = getMany_sql keys'"
    using getMany_sql_length by blast
  have shape: "shape_of loptions = shape_of loptions' \<longrightarrow>
      map_sum (\<lambda>e. e) fst (list_statement now loptions) = map_sum (\<lambda>e. e) fst (list_statement now' loptions')"
  proof
    assume "shape_of loptions = shape_of loptions'"
    then show "map_sum (\<lambda>e. e) fst (list_statement now loptions) = map_sum (\<lambda>e. e) fst (list_statement now' loptions')"
      using list_statement_shape [of 0 loptions now] list_statement_shape [of 0 loptions' now'] by simp
  qed
  show ?thesis
    using get_texts [of execute P now k s] getMany_texts [of execute P now keys s] set_t del_t cl_t
      list_kv_texts [of execute P now loptions s] many shape
    by (intro conjI)
qed


theorem sql_text_free_of_data_witness:
  "texts_of (get (recording (sqlite None)) reference 2000 ''key3''
     ([\<lparr>key = ''key3'', value_blob = Null, value_text = Val ''value3'', value_type = Val ''string'',
        version = ''v3'', expires_at = Some 1500\<rparr>], [])) = [get_sql, del_sql] \<and>
   length [''a'', ''b''] = length [''user:1'', ''user:2''] \<and>
   getMany_sql [''a'', ''b''] = getMany_sql [''user:1'', ''user:2''] \<and>
   shape_of \<lparr>prefix = Some ''user:'', limit = Some 2, cursor = None,
      where_clause = Some (Where_callback (LogicResult Op_AND
        [Condition \<lparr>cond_field = ''role'', cond_operator = ''='', cond_value = IString ''admin''\<rparr>,
         LogicResult Op_NOT [Condition \<lparr>cond_field = ''age'', cond_operator = ''<>'', cond_value = INumber (Finite 22)\<rparr>]])),
      reverse = True\<rparr> =
   shape_of \<lparr>prefix = Some ''%'', limit = Some 10, cursor = Some ''c'',
      where_clause = Some (Where_callback (LogicResult Op_AND
        [Condition \<lparr>cond_field = ''a'', cond_operator = ''='', cond_value = INumber (Finite 1)\<rparr>,
         LogicResult Op_NOT [Condition \<lparr>cond_field = ''b'', cond_operator = ''='', cond_value = IString ''x''\<rparr>]])),
      reverse = True\<rparr> \<and>
   map_sum (\<lambda>e. e) fst (list_statement 1000 \<lparr>prefix = Some ''user:'', limit = Some 2, cursor = None,
      where_clause = Some (Where_callback (LogicResult Op_AND
        [Condition \<lparr>cond_field = ''role'', cond_operator = ''='', cond_value = IString ''admin''\<rparr>,
         LogicResult Op_NOT [Condition \<lparr>cond_field = ''age'', cond_operator = ''<>'', cond_value = INumber (Finite 22)\<rparr>]])),
      reverse = True\<rparr>) =
   map_sum (\<lambda>e. e) fst (list_statement 2000 \<lparr>prefix = Some ''%'', limit = Some 10, cursor = Some ''c'',
      where_clause = Some (Where_callback (LogicResult Op_AND
        [Condition \<lparr>cond_field = ''a'', cond_operator = ''='', cond_value = INumber (Finite 1)\<rparr>,
         LogicResult Op_NOT [Condition \<lparr>cond_field = ''b'', cond_operator = ''='', cond_value = IString ''x''\<rparr>]])),
      reverse = True\<rparr>) \<and>
   map_sum (\<lambda>e. e) fst (list_statement 2000 \<lparr>prefix = Some ''%'', limit = Some 10, cursor = Some ''c'',
      where_clause = Some (Where_callback (LogicResult Op_AND
        [Condition \<lparr>cond_field = ''a'', cond_operator = ''='', cond_value = INumber (Finite 1)\<rparr>,
         LogicResult Op_NOT [Condition \<lparr>cond_field = ''b'', cond_operator = ''='', cond_value = IString ''x''\<rparr>]])),
      reverse = True\<rparr>) =
   Inr (''SELECT * FROM kv_store WHERE 1=1 AND (expires_at IS NULL OR expires_at > ?) AND key LIKE ?'' @
        '' AND value_type = 'json' AND ((json_extract(value_text, ?) = ? AND NOT (json_extract(value_text, ?) = ?)))'' @
        '' ORDER BY key DESC LIMIT ?'')"
proof -
  let ?r3 = "\<lparr>key = ''key3'', value_blob = Null, value_text = Val ''value3'', value_type = Val ''string'',
        version = ''v3'', expires_at = Some 1500\<rparr>"
  let ?o1 = "\<lparr>prefix = Some ''user:'', limit = Some 2, cursor = None,
      where_clause = Some (Where_callback (LogicResult Op_AND
        [Condition \<lparr>cond_field = ''role'', cond_operator = ''='', cond_value = IString ''admin''\<rparr>,
         LogicResult Op_NOT [Condition \<lparr>cond_field = ''age'', cond_operator = ''<>'', cond_value = INumber (Finite 22)\<rparr>]])),
      reverse = True\<rparr>"
  let ?o2 = "\<lparr>prefix = Some ''%'', limit = Some 10, cursor = Some ''c'',
      where_clause = Some (Where_callback (LogicResult Op_AND
        [Condition \<lparr>cond_field = ''a'', cond_operator = ''='', cond_value = INumber (Finite 1)\<rparr>,
         LogicResult Op_NOT [Condition \<lparr>cond_field = ''b'', cond_operator = ''='', cond_value = IString ''x''\<rparr>]])),
      reverse = True\<rparr>"
  note T = sql_text_free_of_data [where execute = "sqlite None" and P = reference and now = 1000 and now' = 2000
      and keys = "[''a'', ''b'']" and keys' = "[''user:1'', ''user:2'']" and loptions = ?o1 and loptions' = ?o2]
  have g: "texts_of (get (recording (sqlite None)) reference 2000 ''key3'' ([?r3], [])) = [get_sql, del_sql]"
    by (simp add: texts_of_def get_def recording_def sqlite_get sqlite_del del_def expired_def)
  have sh: "shape_of ?o1 = shape_of ?o2"
    by (simp add: shape_of_def effective_prefix_def effective_limit_def safeOps_def)
  have st: "map_sum (\<lambda>e. e) fst (list_statement 1000 ?o1) = map_sum (\<lambda>e. e) fst (list_statement 2000 ?o2)"
    using T sh by blast
  have many: "getMany_sql [''a'', ''b''] = getMany_sql [''user:1'', ''user:2'']"
    using T by simp
  have sql_eq: "map_sum (\<lambda>e. e) fst (list_statement 2000 ?o2) =
   Inr (''SELECT * FROM kv_store WHERE 1=1 AND (expires_at IS NULL OR expires_at > ?) AND key LIKE ?'' @
        '' AND value_type = 'json' AND ((json_extract(value_text, ?) = ? AND NOT (json_extract(value_text, ?) = ?)))'' @
        '' ORDER BY key DESC LIMIT ?'')"
    by (simp add: list_statement_def tableName_def safeOps_def)
  show ?thesis
    using g sh st many sql_eq by simp
qed

section \<open>Reading after writing\<close>

lemma upsert_subset: "set (upsert new t) \<subseteq> insert new (set t)"
  by (auto simp: upsert_def)

lemma upsert_member: "new \<in> set (upsert new t)"
  using upsert_has_key [of new t] upsert_same_key [of _ new t] by auto

lemma select_after_upsert:
  "\<exists>rest. filter (\<lambda>r. key r = key new) (upsert new t) = new # rest"
proof (cases "filter (\<lambda>r. key r = key new) (upsert new t)")
  case Nil
  then show ?thesis using upsert_member [of new t] by (auto simp: filter_empty_conv)
next
  case (Cons first rest)
  then have "first \<in> set (filter (\<lambda>r. key r = key new) (upsert new t))" by simp
  then have "first = new" using upsert_same_key [of first new t] by simp
  then show ?thesis using Cons by simp
qed

lemma get_after_upsert:
  assumes "key new = k"
  shows "fst (get (sqlite J) P now k (upsert new t)) =
     (if expired new now then Inr None
      else (case entry_of P new of Inl e \<Rightarrow> Inl e | Inr entry \<Rightarrow> Inr (Some entry)))"
proof -
  obtain rest where "filter (\<lambda>r. key r = k) (upsert new t) = new # rest"
    using select_after_upsert [of new t] assms by auto
  then show ?thesis
    by (simp add: get_def sqlite_get split: sum.splits)
qed

lemma map_throwing_keys:
  "map_throwing (entry_of P) rows = Inr es \<Longrightarrow> map entry_key es = map key rows"
proof (induction rows arbitrary: es)
  case Nil
  then show ?case by simp
next
  case (Cons r rows)
  then show ?case
    by (auto simp: entry_of_def split: sum.splits)
qed

lemma set_order_limit_all: "set (order_limit desc None rows) = set rows"
  by (simp add: order_limit_def Let_def)

lemma entry_of_stored:
  assumes "platform_inverts P v" and "value_ok v"
  shows "\<exists>v'. entry_of P (stored_row k (encodeValue P v) ver ex) =
            Inr \<lparr>entry_key = k, entry_value = Value v', entry_version = ver\<rparr> \<and> same_value v' v"
  using decode_stored [OF assms, of k ver ex] by (auto simp: entry_of_def)

section \<open>The expiry boundary (claim C1)\<close>

text \<open>
  Claim C1 says that a key written with \<^verbatim>\<open>expireIn = d\<close> at \<open>setTime\<close> is absent for
  \<open>get\<close>, and excluded by \<open>list\<close>, at every \<open>now \<ge> setTime + d\<close>. With
  \<^verbatim>\<open>expireIn: 0\<close> the guard of \<open>set\<close> stores no deadline: written at 1000, the key is
  still returned by \<open>get\<close> and by \<open>list\<close> at 5000. The last two lines show the two
  read paths at the deadline itself, \<open>now = setTime + d = 3000\<close>: \<open>get\<close> compares with
  \<^verbatim>\<open>expires_at < now\<close> and returns the entry, the statement of \<open>list\<close> keeps
  \<^verbatim>\<open>expires_at > ?\<close> and leaves it out.
\<close>

theorem expiry_boundary_counterexample:
  "fst (get (sqlite None) reference 5000 ''k''
         (snd (set_kv (sqlite None) reference 1000 ''v1'' ''k'' (Json (JString ''a'')) \<lparr>expireIn = Some 0\<rparr> []))) =
     Inr (Some \<lparr>entry_key = ''k'', entry_value = Value (Json (JString ''a'')), entry_version = ''v1''\<rparr>) \<and>
   fst (list_kv (sqlite None) reference 5000
         \<lparr>prefix = None, limit = None, cursor = None, where_clause = None, reverse = False\<rparr>
         (snd (set_kv (sqlite None) reference 1000 ''v1'' ''k'' (Json (JString ''a'')) \<lparr>expireIn = Some 0\<rparr> []))) =
     Inr [\<lparr>entry_key = ''k'', entry_value = Value (Json (JString ''a'')), entry_version = ''v1''\<rparr>] \<and>
   fst (get (sqlite None) reference 3000 ''k''
         (snd (set_kv (sqlite None) reference 1000 ''v1'' ''k'' (Json (JString ''a'')) \<lparr>expireIn = Some 2000\<rparr> []))) =
     Inr (Some \<lparr>entry_key = ''k'', entry_value = Value (Json (JString ''a'')), entry_version = ''v1''\<rparr>) \<and>
   fst (list_kv (sqlite None) reference 3000
         \<lparr>prefix = None, limit = None, cursor = None, where_clause = None, reverse = False\<rparr>
         (snd (set_kv (sqlite None) reference 1000 ''v1'' ''k'' (Json (JString ''a'')) \<lparr>expireIn = Some 2000\<rparr> []))) =
     Inr []"
  by (simp add: set_kv_sqlite upsert_def stored_row_def expiresAt_def get_def sqlite_get expired_def
        entry_of_def decodeValue_def list_kv_plain effective_prefix_def effective_limit_def
        order_limit_def live_def)

text \<open>
  Claim C1, amended: for a key written with an \<^verbatim>\<open>expireIn = d\<close> other than 0 at
  \<open>setTime\<close> (and \<open>setTime + d \<noteq> 0\<close>, since \<open>get\<close> takes a deadline of 0 for none),
  \<open>get\<close> returns the entry, with the value written, at every \<open>now < setTime + d\<close> and
  returns \<^verbatim>\<open>null\<close> at every \<open>now > setTime + d\<close>; a \<open>list\<close> call with no prefix,
  filter or limit at the instant \<open>now\<close> returns a list, and that list lacks the key
  exactly when \<open>now \<ge> setTime + d\<close>. The value has to survive the platform's text
  round trip, and the rows already in the table have to decode, as \<open>list\<close> decodes
  every row it returns. Nothing is said of \<open>get\<close> at \<open>now = setTime + d\<close>.
\<close>

theorem expiry_boundary:
  assumes "d \<noteq> 0" and "setTime + d \<noteq> 0"
    and "platform_inverts P v" and "value_ok v"
    and "\<forall>r\<in>set t. \<exists>x. decodeValue P r = Inr x"
  shows "(now < setTime + d \<longrightarrow>
           (\<exists>v'. fst (get (sqlite J) P now k
                    (snd (set_kv (sqlite J) P setTime ver k v \<lparr>expireIn = Some d\<rparr> t))) =
                  Inr (Some \<lparr>entry_key = k, entry_value = Value v', entry_version = ver\<rparr>) \<and>
                same_value v' v)) \<and>
         (now > setTime + d \<longrightarrow>
           fst (get (sqlite J) P now k
                 (snd (set_kv (sqlite J) P setTime ver k v \<lparr>expireIn = Some d\<rparr> t))) = Inr None) \<and>
         (\<exists>es. fst (list_kv (sqlite J) P now
                      \<lparr>prefix = None, limit = None, cursor = None, where_clause = None, reverse = rv\<rparr>
                      (snd (set_kv (sqlite J) P setTime ver k v \<lparr>expireIn = Some d\<rparr> t))) = Inr es \<and>
               (k \<notin> entry_key ` set es \<longleftrightarrow> now \<ge> setTime + d))"
proof -
  let ?new = "stored_row k (encodeValue P v) ver (Some (setTime + d))"
  let ?t1 = "upsert ?new t"
  let ?options = "\<lparr>prefix = None, limit = None, cursor = None, where_clause = None, reverse = rv\<rparr>"
  have t1: "snd (set_kv (sqlite J) P setTime ver k v \<lparr>expireIn = Some d\<rparr> t) = ?t1"
    using assms(1) by (simp add: set_kv_sqlite expiresAt_def)
  obtain v' where entry: "entry_of P ?new = Inr \<lparr>entry_key = k, entry_value = Value v', entry_version = ver\<rparr>"
    and same: "same_value v' v"
    using entry_of_stored [OF assms(3,4)] by blast
  have get_eq: "fst (get (sqlite J) P now k ?t1) =
      (if expired ?new now then Inr None
       else Inr (Some \<lparr>entry_key = k, entry_value = Value v', entry_version = ver\<rparr>))"
    using get_after_upsert [of ?new k J P now t] entry by simp
  have before: "now < setTime + d \<longrightarrow>
      (\<exists>v'. fst (get (sqlite J) P now k ?t1) =
               Inr (Some \<lparr>entry_key = k, entry_value = Value v', entry_version = ver\<rparr>) \<and> same_value v' v)"
    using get_eq same by (auto simp: expired_def)
  have after: "now > setTime + d \<longrightarrow> fst (get (sqlite J) P now k ?t1) = Inr None"
    using get_eq assms(2) by (simp add: expired_def)
  let ?rows = "order_limit rv None (filter (live now) ?t1)"
  have listed: "fst (list_kv (sqlite J) P now ?options ?t1) = map_throwing (entry_of P) ?rows"
    by (simp add: list_kv_plain effective_prefix_def effective_limit_def)
  have "\<exists>y. entry_of P r = Inr y" if "r \<in> set ?rows" for r
  proof -
    have "r \<in> set ?t1" using that by (simp add: set_order_limit_all)
    then have "r = ?new \<or> r \<in> set t" using upsert_subset [of ?new t] by auto
    then show ?thesis
      using entry assms(5) by (auto simp: entry_of_def)
  qed
  then obtain es where es: "map_throwing (entry_of P) ?rows = Inr es"
    using map_throwing_total [of ?rows "entry_of P"] by blast
  have "entry_key ` set es = key ` set ?rows"
    using map_throwing_keys [OF es] by (metis set_map)
  also have "\<dots> = key ` {r \<in> set ?t1. live now r}"
    by (simp add: set_order_limit_all)
  finally have keys: "entry_key ` set es = key ` {r \<in> set ?t1. live now r}" .
  have "k \<in> key ` {r \<in> set ?t1. live now r} \<longleftrightarrow> live now ?new"
  proof
    assume "k \<in> key ` {r \<in> set ?t1. live now r}"
    then obtain r where r: "r \<in> set ?t1" "live now r" "key r = k" by auto
    then have "r = ?new" using upsert_same_key [of r ?new t] by simp
    then show "live now ?new" using r by simp
  next
    assume "live now ?new"
    then have "?new \<in> {r \<in> set ?t1. live now r}" using upsert_member [of ?new t] by simp
    then show "k \<in> key ` {r \<in> set ?t1. live now r}"
      by (metis (no_types, lifting) image_eqI key_stored_row)
  qed
  then have "k \<notin> entry_key ` set es \<longleftrightarrow> now \<ge> setTime + d"
    using keys by (auto simp: live_def)
  then have lst: "\<exists>es. fst (list_kv (sqlite J) P now ?options ?t1) = Inr es \<and>
               (k \<notin> entry_key ` set es \<longleftrightarrow> now \<ge> setTime + d)"
    using listed es by auto
  show ?thesis
    unfolding t1 using before after lst by (intro conjI)
qed

theorem expiry_boundary_witness:
  "(2000::int) \<noteq> 0 \<and> (1000::int) + 2000 \<noteq> 0 \<and>
   platform_inverts reference (Json (JString ''value'')) \<and> value_ok (Json (JString ''value'')) \<and>
   (2999::int) < 1000 + 2000 \<and>
   (\<exists>v'. fst (get (sqlite None) reference 2999 ''expired''
              (snd (set_kv (sqlite None) reference 1000 ''v1'' ''expired'' (Json (JString ''value''))
                     \<lparr>expireIn = Some 2000\<rparr> []))) =
            Inr (Some \<lparr>entry_key = ''expired'', entry_value = Value v', entry_version = ''v1''\<rparr>) \<and>
          same_value v' (Json (JString ''value''))) \<and>
   (3001::int) > 1000 + 2000 \<and>
   fst (get (sqlite None) reference 3001 ''expired''
         (snd (set_kv (sqlite None) reference 1000 ''v1'' ''expired'' (Json (JString ''value''))
                \<lparr>expireIn = Some 2000\<rparr> []))) = Inr None \<and>
   (\<exists>es. fst (list_kv (sqlite None) reference 3000
              \<lparr>prefix = None, limit = None, cursor = None, where_clause = None, reverse = False\<rparr>
              (snd (set_kv (sqlite None) reference 1000 ''v1'' ''expired'' (Json (JString ''value''))
                     \<lparr>expireIn = Some 2000\<rparr> []))) = Inr es \<and>
         ''expired'' \<notin> entry_key ` set es) \<and>
   (\<exists>es. fst (list_kv (sqlite None) reference 2999
              \<lparr>prefix = None, limit = None, cursor = None, where_clause = None, reverse = False\<rparr>
              (snd (set_kv (sqlite None) reference 1000 ''v1'' ''expired'' (Json (JString ''value''))
                     \<lparr>expireIn = Some 2000\<rparr> []))) = Inr es \<and>
         ''expired'' \<in> entry_key ` set es)"
proof -
  have h1: "(2000::int) \<noteq> 0" and h2: "(1000::int) + 2000 \<noteq> 0" by simp_all
  have h3: "platform_inverts reference (Json (JString ''value''))"
    and h4: "value_ok (Json (JString ''value''))" by simp_all
  have h5: "\<forall>r\<in>set ([]::row list). \<exists>x. decodeValue reference r = Inr x" by simp
  note T = expiry_boundary [OF h1 h2 h3 h4 h5, where J = None and ver = "''v1''" and k = "''expired''" and rv = False]
  have a: "(2999::int) < 1000 + 2000" and b: "(3001::int) > 1000 + 2000"
    and c: "(3000::int) \<ge> 1000 + 2000" and d: "\<not> (2999::int) \<ge> 1000 + 2000" by simp_all
  show ?thesis
    using T [of 2999] T [of 3001] T [of 3000] h1 h2 h3 h4 a b c d by blast
qed

section \<open>Writing a key twice (claim C4)\<close>





section \<open>The prefix of list (claim C9)\<close>

text \<open>
  Claim C9 says that \<open>list\<close> with a prefix \<open>p\<close> returns exactly the live entries
  whose key starts with \<open>p\<close>, every character of \<open>p\<close> taken literally. The code binds
  \<open>p\<close> followed by \<^verbatim>\<open>%\<close> to \<^verbatim>\<open>key LIKE ?\<close> without escaping it. Here the
  prefix \<^verbatim>\<open>user_\<close> is asked for on five keys: the answer holds \<^verbatim>\<open>user:1\<close> and
  \<^verbatim>\<open>users1\<close>, where \<^verbatim>\<open>_\<close> stood for one arbitrary character, and \<^verbatim>\<open>USER_2\<close>,
  since \<^verbatim>\<open>LIKE\<close> ignores the case of ASCII letters; only \<^verbatim>\<open>user_1\<close> starts with
  the prefix.
\<close>

theorem prefix_read_as_pattern:
  "map_sum (\<lambda>e. e) (map entry_key)
     (fst (list_kv (sqlite None) reference 1000
        \<lparr>prefix = Some ''user_'', limit = None, cursor = None, where_clause = None, reverse = False\<rparr>
        [\<lparr>key = ''users1'', value_blob = Null, value_text = Val ''c'', value_type = Val ''string'', version = ''v3'', expires_at = None\<rparr>,
         \<lparr>key = ''user_1'', value_blob = Null, value_text = Val ''b'', value_type = Val ''string'', version = ''v2'', expires_at = None\<rparr>,
         \<lparr>key = ''user:1'', value_blob = Null, value_text = Val ''a'', value_type = Val ''string'', version = ''v1'', expires_at = None\<rparr>,
         \<lparr>key = ''USER_2'', value_blob = Null, value_text = Val ''d'', value_type = Val ''string'', version = ''v4'', expires_at = None\<rparr>,
         \<lparr>key = ''other'', value_blob = Null, value_text = Val ''e'', value_type = Val ''string'', version = ''v5'', expires_at = None\<rparr>])) =
   Inr [''USER_2'', ''user:1'', ''user_1'', ''users1'']"
  by (simp add: list_kv_plain effective_prefix_def effective_limit_def order_limit_def live_def
        same_letter_def entry_of_def decodeValue_def)

end
